theory Spec2Isabelle
  imports Main "HOL-Library.Code_Target_Nat"
begin

section \<open>The element type and the instrumented memory\<close>

text \<open>
  The container of \<^verbatim>\<open>vector.h\<close> is a template over an element type \<^verbatim>\<open>T\<close>.
  What the code asks of \<^verbatim>\<open>T\<close> is collected in a record: whether \<^verbatim>\<open>T\<close> has a move
  constructor (a type without one is initialised from an rvalue by its copy constructor),
  the two traits that the macro \<^verbatim>\<open>MOVE_OR_COPY_IF_NOEXCEPT\<close> queries
  (\<^verbatim>\<open>std::is_nothrow_move_constructible_v<T>\<close>: the constructor that initialises from an
  rvalue cannot throw, and \<^verbatim>\<open>std::is_copy_constructible_v<T>\<close>), the value a
  value-initialised object has, the value a move leaves behind in its source (the empty string
  for a string type), and \<^verbatim>\<open>sizeof(T)\<close>.
\<close>

record 'a elem_type =
  move_ctor :: bool
  nothrow_move :: bool
  copy_constructible :: bool
  default_value :: 'a
  moved_from :: "'a \<Rightarrow> 'a"
  sizeof_T :: nat

text \<open>
  \<^verbatim>\<open>size_t\<close> has 64 bits: its values are the numbers below \<open>size_t_range\<close>, and the
  products \<^verbatim>\<open>n * sizeof(T)\<close> and \<^verbatim>\<open>2 * size_\<close> wrap around. The other arithmetic
  on sizes in this code is a subtraction behind a check that it does not go below zero, or an
  increment of a size below a capacity, and is written on natural numbers.
\<close>

definition size_t_range :: nat where
  "size_t_range = 2 ^ 64"

text \<open>
  Failures are values. \<open>BadAlloc\<close> is the exception of \<^verbatim>\<open>operator new\<close>,
  \<open>ElemThrow\<close> an exception of a constructor or an assignment of \<^verbatim>\<open>T\<close>,
  \<open>AssertionFailed\<close> a failed \<^verbatim>\<open>assert\<close>, and \<open>InvalidAccess\<close> a read or a
  write through a pointer that does not designate a suitable slot (undefined behaviour in C++).
\<close>

datatype error = BadAlloc | ElemThrow | AssertionFailed | InvalidAccess

text \<open>
  A pointer \<^verbatim>\<open>T*\<close> is a block address (\<open>None\<close> for \<^verbatim>\<open>nullptr\<close>) and an offset
  counted in elements. A slot of a block is \<open>None\<close> while it is raw memory and \<open>Some x\<close>
  while it holds a constructed object of value \<open>x\<close>.
\<close>

type_synonym ptr = "nat option \<times> nat"

definition ptr_add :: "ptr \<Rightarrow> nat \<Rightarrow> ptr" where
  "ptr_add p n = (fst p, snd p + n)"

text \<open>
  The world: the allocated blocks, the next fresh block address, and the instrumentation.
  \<open>fuse\<close> injects one failure: \<open>Some k\<close> lets \<open>k\<close> fallible events (allocations,
  constructions, assignments) succeed and makes the next one throw; \<open>None\<close> injects none.
  The counters record constructor and destructor calls of \<^verbatim>\<open>T\<close>, and \<open>lost\<close> counts
  the objects that were still constructed in a block when the block was released.
\<close>

record 'a world =
  heap :: "nat \<Rightarrow> 'a option list option"
  next_block :: nat
  fuse :: "nat option"
  copy_ctors :: nat
  move_ctors :: nat
  value_ctors :: nat
  dtors :: nat
  lost :: nat

definition tick :: "'a world \<Rightarrow> bool \<times> 'a world" where
  "tick w = (case fuse w of
       None \<Rightarrow> (False, w)
     | Some k \<Rightarrow> (case k of
           0 \<Rightarrow> (True, w\<lparr>fuse := None\<rparr>)
         | Suc j \<Rightarrow> (False, w\<lparr>fuse := Some j\<rparr>)))"

definition slot_at :: "ptr \<Rightarrow> 'a world \<Rightarrow> 'a option option" where
  "slot_at p w = (case fst p of
       None \<Rightarrow> None
     | Some a \<Rightarrow> (case heap w a of
           None \<Rightarrow> None
         | Some slots \<Rightarrow> if snd p < length slots then Some (slots ! snd p) else None))"

definition write_slot :: "ptr \<Rightarrow> 'a option \<Rightarrow> 'a world \<Rightarrow> 'a world" where
  "write_slot p s w = (case fst p of
       None \<Rightarrow> w
     | Some a \<Rightarrow> (case heap w a of
           None \<Rightarrow> w
         | Some slots \<Rightarrow> w\<lparr>heap := (heap w)(a := Some (slots[snd p := s]))\<rparr>))"

definition live_value :: "ptr \<Rightarrow> 'a world \<Rightarrow> 'a option" where
  "live_value p w = (case slot_at p w of Some (Some x) \<Rightarrow> Some x | _ \<Rightarrow> None)"

definition live_count :: "'a option list \<Rightarrow> nat" where
  "live_count slots = length (filter (\<lambda>s. s \<noteq> None) slots)"

subsection \<open>Operations of the element type\<close>

text \<open>
  The constructor calls of the instrumented type. An initialisation from an lvalue runs the
  copy constructor. An initialisation from an rvalue runs the move constructor when
  \<^verbatim>\<open>T\<close> has one, and the copy constructor otherwise, which leaves its source as it is.
  The copy constructor may throw, unless it is also the constructor for rvalues and
  \<^verbatim>\<open>T\<close> is nothrow move constructible.
\<close>

definition count_copy :: "'a world \<Rightarrow> 'a world" where
  "count_copy w = w\<lparr>copy_ctors := Suc (copy_ctors w)\<rparr>"

definition count_rvalue :: "'a elem_type \<Rightarrow> 'a world \<Rightarrow> 'a world" where
  "count_rvalue T w = (if move_ctor T then w\<lparr>move_ctors := Suc (move_ctors w)\<rparr> else count_copy w)"

definition moved_out :: "'a elem_type \<Rightarrow> 'a \<Rightarrow> 'a" where
  "moved_out T x = (if move_ctor T then moved_from T x else x)"

definition copy_may_throw :: "'a elem_type \<Rightarrow> bool" where
  "copy_may_throw T = (move_ctor T \<or> \<not> nothrow_move T)"

text \<open>Copy construction \<^verbatim>\<open>new (dst) T(*src)\<close>.\<close>

definition construct_copy :: "'a elem_type \<Rightarrow> ptr \<Rightarrow> ptr \<Rightarrow> 'a world \<Rightarrow> (error + unit) \<times> 'a world" where
  "construct_copy T dst src w = (case live_value src w of
       None \<Rightarrow> (Inl InvalidAccess, w)
     | Some x \<Rightarrow> if slot_at dst w = None then (Inl InvalidAccess, w)
         else (case (if copy_may_throw T then tick w else (False, w)) of
             (True, w') \<Rightarrow> (Inl ElemThrow, w')
           | (False, w') \<Rightarrow> (Inr (), count_copy (write_slot dst (Some x) w'))))"

text \<open>
  Construction from an rvalue \<^verbatim>\<open>new (dst) T(std::move(*src))\<close>. It cannot throw when the
  type is nothrow move constructible.
\<close>

definition construct_move :: "'a elem_type \<Rightarrow> ptr \<Rightarrow> ptr \<Rightarrow> 'a world \<Rightarrow> (error + unit) \<times> 'a world" where
  "construct_move T dst src w = (case live_value src w of
       None \<Rightarrow> (Inl InvalidAccess, w)
     | Some x \<Rightarrow> if slot_at dst w = None then (Inl InvalidAccess, w)
         else (case (if nothrow_move T then (False, w) else tick w) of
             (True, w') \<Rightarrow> (Inl ElemThrow, w')
           | (False, w') \<Rightarrow> (Inr (),
               count_rvalue T (write_slot src (Some (moved_out T x)) (write_slot dst (Some x) w')))))"

text \<open>Value initialisation \<^verbatim>\<open>new (dst) T()\<close>.\<close>

definition construct_value :: "'a elem_type \<Rightarrow> ptr \<Rightarrow> 'a world \<Rightarrow> (error + unit) \<times> 'a world" where
  "construct_value T dst w = (if slot_at dst w = None then (Inl InvalidAccess, w)
     else (case tick w of
         (True, w') \<Rightarrow> (Inl ElemThrow, w')
       | (False, w') \<Rightarrow> (Inr (), (write_slot dst (Some (default_value T)) w')\<lparr>value_ctors := Suc (value_ctors w')\<rparr>)))"

text \<open>Copy assignment \<^verbatim>\<open>*dst = *src\<close> and move assignment \<^verbatim>\<open>*dst = std::move(*src)\<close>.\<close>

definition assign_copy :: "'a elem_type \<Rightarrow> ptr \<Rightarrow> ptr \<Rightarrow> 'a world \<Rightarrow> (error + unit) \<times> 'a world" where
  "assign_copy T dst src w = (case live_value src w of
       None \<Rightarrow> (Inl InvalidAccess, w)
     | Some x \<Rightarrow> if live_value dst w = None then (Inl InvalidAccess, w)
         else (case tick w of
             (True, w') \<Rightarrow> (Inl ElemThrow, w')
           | (False, w') \<Rightarrow> (Inr (), write_slot dst (Some x) w')))"

definition assign_move :: "'a elem_type \<Rightarrow> ptr \<Rightarrow> ptr \<Rightarrow> 'a world \<Rightarrow> (error + unit) \<times> 'a world" where
  "assign_move T dst src w = (case live_value src w of
       None \<Rightarrow> (Inl InvalidAccess, w)
     | Some x \<Rightarrow> if live_value dst w = None then (Inl InvalidAccess, w)
         else (case tick w of
             (True, w') \<Rightarrow> (Inl ElemThrow, w')
           | (False, w') \<Rightarrow> (Inr (),
               write_slot src (Some (moved_from T x)) (write_slot dst (Some x) w'))))"

text \<open>
  The destructor \<^verbatim>\<open>std::destroy_at(p)\<close>. It never throws. Destroying what is not
  an object is undefined behaviour; the model leaves the world as it is there.
\<close>

definition destroy_at :: "ptr \<Rightarrow> 'a world \<Rightarrow> 'a world" where
  "destroy_at p w = (case live_value p w of
       None \<Rightarrow> w
     | Some x \<Rightarrow> (write_slot p None w)\<lparr>dtors := Suc (dtors w)\<rparr>)"


text \<open>
  The arguments of \<^verbatim>\<open>PushBack\<close>, \<^verbatim>\<open>Insert\<close> and \<^verbatim>\<open>Emplace\<close> are
  references: \<^verbatim>\<open>const T&\<close> or \<^verbatim>\<open>T&&\<close>, to an object outside every block
  (\<open>Ext\<close>, given by its value) or to an object in a block (\<open>At\<close>), which may be an
  element of the vector itself.
\<close>

datatype 'a src = Ext 'a | At ptr

datatype 'a arg = ConstRef "'a src" | RvalueRef "'a src"

text \<open>\<^verbatim>\<open>std::construct_at(dst, std::forward<Args>(args)...)\<close>.\<close>

fun construct_at :: "'a elem_type \<Rightarrow> ptr \<Rightarrow> 'a arg \<Rightarrow> 'a world \<Rightarrow> (error + unit) \<times> 'a world" where
  "construct_at T dst (ConstRef (Ext x)) w = (if slot_at dst w = None then (Inl InvalidAccess, w)
     else (case (if copy_may_throw T then tick w else (False, w)) of
         (True, w') \<Rightarrow> (Inl ElemThrow, w')
       | (False, w') \<Rightarrow> (Inr (), count_copy (write_slot dst (Some x) w'))))"
| "construct_at T dst (ConstRef (At p)) w = construct_copy T dst p w"
| "construct_at T dst (RvalueRef (Ext x)) w = (if slot_at dst w = None then (Inl InvalidAccess, w)
     else (case (if nothrow_move T then (False, w) else tick w) of
         (True, w') \<Rightarrow> (Inl ElemThrow, w')
       | (False, w') \<Rightarrow> (Inr (), count_rvalue T (write_slot dst (Some x) w'))))"
| "construct_at T dst (RvalueRef (At p)) w = construct_move T dst p w"

text \<open>
  The local object \<^verbatim>\<open>T temp(std::forward<Args>(args)...)\<close> of \<^verbatim>\<open>Emplace\<close>: its
  value, the assignment \<^verbatim>\<open>*insert_pos = std::move(temp)\<close> and its destructor at the end
  of the scope.
\<close>

fun make_temp :: "'a elem_type \<Rightarrow> 'a arg \<Rightarrow> 'a world \<Rightarrow> (error + 'a) \<times> 'a world" where
  "make_temp T (ConstRef (Ext x)) w = (case (if copy_may_throw T then tick w else (False, w)) of
       (True, w') \<Rightarrow> (Inl ElemThrow, w')
     | (False, w') \<Rightarrow> (Inr x, count_copy w'))"
| "make_temp T (ConstRef (At p)) w = (case live_value p w of
       None \<Rightarrow> (Inl InvalidAccess, w)
     | Some x \<Rightarrow> (case (if copy_may_throw T then tick w else (False, w)) of
           (True, w') \<Rightarrow> (Inl ElemThrow, w')
         | (False, w') \<Rightarrow> (Inr x, count_copy w')))"
| "make_temp T (RvalueRef (Ext x)) w = (case (if nothrow_move T then (False, w) else tick w) of
       (True, w') \<Rightarrow> (Inl ElemThrow, w')
     | (False, w') \<Rightarrow> (Inr x, count_rvalue T w'))"
| "make_temp T (RvalueRef (At p)) w = (case live_value p w of
       None \<Rightarrow> (Inl InvalidAccess, w)
     | Some x \<Rightarrow> (case (if nothrow_move T then (False, w) else tick w) of
           (True, w') \<Rightarrow> (Inl ElemThrow, w')
         | (False, w') \<Rightarrow> (Inr x, count_rvalue T (write_slot p (Some (moved_out T x)) w'))))"

definition assign_move_temp :: "'a elem_type \<Rightarrow> ptr \<Rightarrow> 'a \<Rightarrow> 'a world \<Rightarrow> (error + unit) \<times> 'a world" where
  "assign_move_temp T dst x w = (if live_value dst w = None then (Inl InvalidAccess, w)
     else (case tick w of
         (True, w') \<Rightarrow> (Inl ElemThrow, w')
       | (False, w') \<Rightarrow> (Inr (), write_slot dst (Some x) w')))"

definition destroy_temp :: "'a world \<Rightarrow> 'a world" where
  "destroy_temp w = w\<lparr>dtors := Suc (dtors w)\<rparr>"

subsection \<open>The algorithms of the standard library that the container calls\<close>

fun destroy_n :: "ptr \<Rightarrow> nat \<Rightarrow> 'a world \<Rightarrow> 'a world" where
  "destroy_n p 0 w = w"
| "destroy_n p (Suc n) w = destroy_n (ptr_add p 1) n (destroy_at p w)"

text \<open>
  \<^verbatim>\<open>std::uninitialized_copy_n\<close>, \<^verbatim>\<open>std::uninitialized_move_n\<close> and
  \<^verbatim>\<open>std::uninitialized_value_construct_n\<close> construct \<open>n\<close> objects one after the other;
  when a construction throws they destroy the objects they have constructed and rethrow.
  The index \<open>i\<close> counts the objects constructed so far.
\<close>

fun uninitialized_copy_from :: "'a elem_type \<Rightarrow> ptr \<Rightarrow> ptr \<Rightarrow> nat \<Rightarrow> nat \<Rightarrow> 'a world \<Rightarrow> (error + unit) \<times> 'a world" where
  "uninitialized_copy_from T src dst i 0 w = (Inr (), w)"
| "uninitialized_copy_from T src dst i (Suc n) w =
     (case construct_copy T (ptr_add dst i) (ptr_add src i) w of
        (Inl e, w') \<Rightarrow> (Inl e, destroy_n dst i w')
      | (Inr u, w') \<Rightarrow> uninitialized_copy_from T src dst (Suc i) n w')"

definition uninitialized_copy_n :: "'a elem_type \<Rightarrow> ptr \<Rightarrow> nat \<Rightarrow> ptr \<Rightarrow> 'a world \<Rightarrow> (error + unit) \<times> 'a world" where
  "uninitialized_copy_n T first n d_first w = uninitialized_copy_from T first d_first 0 n w"

fun uninitialized_move_from :: "'a elem_type \<Rightarrow> ptr \<Rightarrow> ptr \<Rightarrow> nat \<Rightarrow> nat \<Rightarrow> 'a world \<Rightarrow> (error + unit) \<times> 'a world" where
  "uninitialized_move_from T src dst i 0 w = (Inr (), w)"
| "uninitialized_move_from T src dst i (Suc n) w =
     (case construct_move T (ptr_add dst i) (ptr_add src i) w of
        (Inl e, w') \<Rightarrow> (Inl e, destroy_n dst i w')
      | (Inr u, w') \<Rightarrow> uninitialized_move_from T src dst (Suc i) n w')"

definition uninitialized_move_n :: "'a elem_type \<Rightarrow> ptr \<Rightarrow> nat \<Rightarrow> ptr \<Rightarrow> 'a world \<Rightarrow> (error + unit) \<times> 'a world" where
  "uninitialized_move_n T first n d_first w = uninitialized_move_from T first d_first 0 n w"

fun uninitialized_value_construct_from :: "'a elem_type \<Rightarrow> ptr \<Rightarrow> nat \<Rightarrow> nat \<Rightarrow> 'a world \<Rightarrow> (error + unit) \<times> 'a world" where
  "uninitialized_value_construct_from T dst i 0 w = (Inr (), w)"
| "uninitialized_value_construct_from T dst i (Suc n) w =
     (case construct_value T (ptr_add dst i) w of
        (Inl e, w') \<Rightarrow> (Inl e, destroy_n dst i w')
      | (Inr u, w') \<Rightarrow> uninitialized_value_construct_from T dst (Suc i) n w')"

definition uninitialized_value_construct_n :: "'a elem_type \<Rightarrow> ptr \<Rightarrow> nat \<Rightarrow> 'a world \<Rightarrow> (error + unit) \<times> 'a world" where
  "uninitialized_value_construct_n T first n w = uninitialized_value_construct_from T first 0 n w"

text \<open>
  \<^verbatim>\<open>std::copy\<close> and \<^verbatim>\<open>std::move\<close> assign forwards, \<^verbatim>\<open>std::move_backward\<close>
  assigns from the last element down; a throwing assignment ends them where they are. The range
  \<^verbatim>\<open>[first, last)\<close> is given by \<open>first\<close> and its length.
\<close>

fun std_copy :: "'a elem_type \<Rightarrow> ptr \<Rightarrow> nat \<Rightarrow> ptr \<Rightarrow> 'a world \<Rightarrow> (error + unit) \<times> 'a world" where
  "std_copy T first 0 d_first w = (Inr (), w)"
| "std_copy T first (Suc n) d_first w =
     (case assign_copy T d_first first w of
        (Inl e, w') \<Rightarrow> (Inl e, w')
      | (Inr u, w') \<Rightarrow> std_copy T (ptr_add first 1) n (ptr_add d_first 1) w')"

fun std_move :: "'a elem_type \<Rightarrow> ptr \<Rightarrow> nat \<Rightarrow> ptr \<Rightarrow> 'a world \<Rightarrow> (error + unit) \<times> 'a world" where
  "std_move T first 0 d_first w = (Inr (), w)"
| "std_move T first (Suc n) d_first w =
     (case assign_move T d_first first w of
        (Inl e, w') \<Rightarrow> (Inl e, w')
      | (Inr u, w') \<Rightarrow> std_move T (ptr_add first 1) n (ptr_add d_first 1) w')"

fun std_move_backward :: "'a elem_type \<Rightarrow> ptr \<Rightarrow> nat \<Rightarrow> ptr \<Rightarrow> 'a world \<Rightarrow> (error + unit) \<times> 'a world" where
  "std_move_backward T first 0 d_last w = (Inr (), w)"
| "std_move_backward T first (Suc n) d_last w =
     (case assign_move T (fst d_last, snd d_last - 1) (ptr_add first n) w of
        (Inl e, w') \<Rightarrow> (Inl e, w')
      | (Inr u, w') \<Rightarrow> std_move_backward T first n (fst d_last, snd d_last - 1) w')"

text \<open>The macro \<^verbatim>\<open>MOVE_OR_COPY_IF_NOEXCEPT(old_begin, new_begin, count)\<close>.\<close>

definition MOVE_OR_COPY_IF_NOEXCEPT :: "'a elem_type \<Rightarrow> ptr \<Rightarrow> ptr \<Rightarrow> nat \<Rightarrow> 'a world \<Rightarrow> (error + unit) \<times> 'a world" where
  "MOVE_OR_COPY_IF_NOEXCEPT T old_begin new_begin count w =
     (if nothrow_move T \<or> \<not> copy_constructible T
      then uninitialized_move_n T old_begin count new_begin w
      else uninitialized_copy_n T old_begin count new_begin w)"

section \<open>RawMemory\<close>

text \<open>
  The members \<^verbatim>\<open>buffer_\<close> and \<^verbatim>\<open>capacity_\<close> (and \<^verbatim>\<open>data_\<close>, \<^verbatim>\<open>size_\<close>
  of the vector below) are written \<open>m_buffer\<close>, \<open>m_capacity\<close>, \<open>m_data\<close>, \<open>m_size\<close>.
\<close>

record raw_memory =
  m_buffer :: "nat option"
  m_capacity :: nat

text \<open>
  \<^verbatim>\<open>Allocate(n)\<close> returns \<^verbatim>\<open>nullptr\<close> for \<open>n = 0\<close> and otherwise a fresh block of
  \<^verbatim>\<open>n * sizeof(T)\<close> bytes, computed in \<^verbatim>\<open>size_t\<close>: the block has as many raw slots
  as fit into that many bytes, which is \<open>n\<close> unless the product wraps around.
  \<^verbatim>\<open>operator new\<close> may throw. \<^verbatim>\<open>Deallocate\<close> releases the block and runs no
  destructor: the objects still constructed in it are counted in \<open>lost\<close>.
\<close>

definition Allocate :: "'a elem_type \<Rightarrow> nat \<Rightarrow> 'a world \<Rightarrow> (error + nat option) \<times> 'a world" where
  "Allocate T n w = (if n \<noteq> 0
     then (case tick w of
         (True, w') \<Rightarrow> (Inl BadAlloc, w')
       | (False, w') \<Rightarrow> (Inr (Some (next_block w')),
           w'\<lparr>heap := (heap w')(next_block w' :=
                 Some (replicate (((n * sizeof_T T) mod size_t_range) div sizeof_T T) None)),
              next_block := Suc (next_block w')\<rparr>))
     else (Inr None, w))"

definition Deallocate :: "nat option \<Rightarrow> 'a world \<Rightarrow> 'a world" where
  "Deallocate buf w = (case buf of
       None \<Rightarrow> w
     | Some a \<Rightarrow> (case heap w a of
           None \<Rightarrow> w
         | Some slots \<Rightarrow> w\<lparr>heap := (heap w)(a := None), lost := lost w + live_count slots\<rparr>))"

definition RawMemory_default :: raw_memory where
  "RawMemory_default = \<lparr>m_buffer = None, m_capacity = 0\<rparr>"

definition RawMemory_ctor :: "'a elem_type \<Rightarrow> nat \<Rightarrow> 'a world \<Rightarrow> (error + raw_memory) \<times> 'a world" where
  "RawMemory_ctor T capacity w = (case Allocate T capacity w of
       (Inl e, w') \<Rightarrow> (Inl e, w')
     | (Inr buf, w') \<Rightarrow> (Inr \<lparr>m_buffer = buf, m_capacity = capacity\<rparr>, w'))"

text \<open>The move constructor returns the new object and what is left of \<open>other\<close>.\<close>

definition RawMemory_move_ctor :: "raw_memory \<Rightarrow> raw_memory \<times> raw_memory" where
  "RawMemory_move_ctor other =
     (\<lparr>m_buffer = m_buffer other, m_capacity = m_capacity other\<rparr>, \<lparr>m_buffer = None, m_capacity = 0\<rparr>)"

definition RawMemory_dtor :: "raw_memory \<Rightarrow> 'a world \<Rightarrow> 'a world" where
  "RawMemory_dtor m w = Deallocate (m_buffer m) w"

definition RawMemory_Swap :: "raw_memory \<Rightarrow> raw_memory \<Rightarrow> raw_memory \<times> raw_memory" where
  "RawMemory_Swap m other =
     (\<lparr>m_buffer = m_buffer other, m_capacity = m_capacity other\<rparr>,
      \<lparr>m_buffer = m_buffer m, m_capacity = m_capacity m\<rparr>)"

definition GetAddress :: "raw_memory \<Rightarrow> ptr" where
  "GetAddress m = (m_buffer m, 0)"


section \<open>Vector\<close>

record vector =
  m_data :: raw_memory
  m_size :: nat

definition Size :: "vector \<Rightarrow> nat" where
  "Size v = m_size v"

definition Capacity :: "vector \<Rightarrow> nat" where
  "Capacity v = m_capacity (m_data v)"

text \<open>\<^verbatim>\<open>begin()\<close> and \<^verbatim>\<open>end()\<close>.\<close>

definition vec_begin :: "vector \<Rightarrow> ptr" where
  "vec_begin v = GetAddress (m_data v)"

definition vec_end :: "vector \<Rightarrow> ptr" where
  "vec_end v = ptr_add (GetAddress (m_data v)) (m_size v)"

definition Vector_default :: vector where
  "Vector_default = \<lparr>m_data = RawMemory_default, m_size = 0\<rparr>"

text \<open>
  \<^verbatim>\<open>explicit Vector(size_t size)\<close> and \<^verbatim>\<open>Vector(const Vector& other)\<close>. When the body
  of a constructor throws, the member \<^verbatim>\<open>data_\<close>, already constructed, is destroyed.
\<close>

definition Vector_sized :: "'a elem_type \<Rightarrow> nat \<Rightarrow> 'a world \<Rightarrow> (error + vector) \<times> 'a world" where
  "Vector_sized T sz w = (case RawMemory_ctor T sz w of
       (Inl e, w1) \<Rightarrow> (Inl e, w1)
     | (Inr d, w1) \<Rightarrow> (case uninitialized_value_construct_n T (GetAddress d) sz w1 of
           (Inl e, w2) \<Rightarrow> (Inl e, RawMemory_dtor d w2)
         | (Inr u, w2) \<Rightarrow> (Inr \<lparr>m_data = d, m_size = sz\<rparr>, w2)))"

definition Vector_copy_ctor :: "'a elem_type \<Rightarrow> vector \<Rightarrow> 'a world \<Rightarrow> (error + vector) \<times> 'a world" where
  "Vector_copy_ctor T other w = (case RawMemory_ctor T (m_size other) w of
       (Inl e, w1) \<Rightarrow> (Inl e, w1)
     | (Inr d, w1) \<Rightarrow>
         (case uninitialized_copy_n T (GetAddress (m_data other)) (m_size other) (GetAddress d) w1 of
           (Inl e, w2) \<Rightarrow> (Inl e, RawMemory_dtor d w2)
         | (Inr u, w2) \<Rightarrow> (Inr \<lparr>m_data = d, m_size = m_size other\<rparr>, w2)))"

text \<open>\<^verbatim>\<open>Vector(Vector&& other)\<close>: the new vector and what is left of \<open>other\<close>.\<close>

definition Vector_move_ctor :: "vector \<Rightarrow> vector \<times> vector" where
  "Vector_move_ctor other = (case RawMemory_move_ctor (m_data other) of
       (d, od) \<Rightarrow> (\<lparr>m_data = d, m_size = m_size other\<rparr>, \<lparr>m_data = od, m_size = 0\<rparr>))"

text \<open>\<^verbatim>\<open>~Vector()\<close>, followed by the destructor of the member \<^verbatim>\<open>data_\<close>.\<close>

definition Vector_dtor :: "vector \<Rightarrow> 'a world \<Rightarrow> 'a world" where
  "Vector_dtor v w = RawMemory_dtor (m_data v) (destroy_n (GetAddress (m_data v)) (m_size v) w)"

definition Swap :: "vector \<Rightarrow> vector \<Rightarrow> vector \<times> vector" where
  "Swap v other = (case RawMemory_Swap (m_data v) (m_data other) of
       (d, od) \<Rightarrow> (\<lparr>m_data = d, m_size = m_size other\<rparr>, \<lparr>m_data = od, m_size = m_size v\<rparr>))"

text \<open>
  The member functions take the vector and the world and return both. The local
  \<^verbatim>\<open>new_data\<close> is destroyed when its scope is left, by the return as by an exception.
\<close>

definition Reserve :: "'a elem_type \<Rightarrow> nat \<Rightarrow> vector \<Rightarrow> 'a world \<Rightarrow> (error + unit) \<times> vector \<times> 'a world" where
  "Reserve T new_capacity v w =
     (if new_capacity \<le> m_capacity (m_data v) then (Inr (), v, w)
      else (case RawMemory_ctor T new_capacity w of
          (Inl e, w1) \<Rightarrow> (Inl e, v, w1)
        | (Inr new_data, w1) \<Rightarrow>
            (let new_begin = GetAddress new_data;
                 old_begin = GetAddress (m_data v)
             in (case MOVE_OR_COPY_IF_NOEXCEPT T old_begin new_begin (m_size v) w1 of
                  (Inl e, w2) \<Rightarrow> (Inl e, v, RawMemory_dtor new_data w2)
                | (Inr u, w2) \<Rightarrow>
                    (let w3 = destroy_n old_begin (m_size v) w2
                     in (case RawMemory_Swap (m_data v) new_data of
                          (d, nd) \<Rightarrow> (Inr (), v\<lparr>m_data := d\<rparr>, RawMemory_dtor nd w3)))))))"

definition Resize :: "'a elem_type \<Rightarrow> nat \<Rightarrow> vector \<Rightarrow> 'a world \<Rightarrow> (error + unit) \<times> vector \<times> 'a world" where
  "Resize T new_size v w =
     (case (if new_size > m_capacity (m_data v) then Reserve T new_size v w else (Inr (), v, w)) of
        (Inl e, v1, w1) \<Rightarrow> (Inl e, v1, w1)
      | (Inr u, v1, w1) \<Rightarrow>
          (if new_size > m_size v1
           then (case uninitialized_value_construct_n T
                        (ptr_add (GetAddress (m_data v1)) (m_size v1)) (new_size - m_size v1) w1 of
                  (Inl e, w2) \<Rightarrow> (Inl e, v1, w2)
                | (Inr u', w2) \<Rightarrow> (Inr (), v1\<lparr>m_size := new_size\<rparr>, w2))
           else (Inr (), v1\<lparr>m_size := new_size\<rparr>,
                 destroy_n (ptr_add (GetAddress (m_data v1)) new_size) (m_size v1 - new_size) w1)))"

definition PopBack :: "vector \<Rightarrow> 'a world \<Rightarrow> (error + unit) \<times> vector \<times> 'a world" where
  "PopBack v w =
     (if \<not> m_size v > 0 then (Inl AssertionFailed, v, w)
      else (Inr (), v\<lparr>m_size := m_size v - 1\<rparr>,
            destroy_at (fst (GetAddress (m_data v)), snd (GetAddress (m_data v)) + m_size v - 1) w))"

definition Emplace :: "'a elem_type \<Rightarrow> ptr \<Rightarrow> 'a arg \<Rightarrow> vector \<Rightarrow> 'a world \<Rightarrow> (error + ptr) \<times> vector \<times> 'a world" where
  "Emplace T pos args v w =
     (if \<not> (fst pos = fst (vec_begin v) \<and> snd pos \<ge> snd (vec_begin v) \<and> snd pos \<le> snd (vec_end v))
      then (Inl AssertionFailed, v, w)
      else
       (let insert_index = snd pos - snd (vec_begin v) in
        if m_size v < m_capacity (m_data v) then
          (let insert_pos = ptr_add (vec_begin v) insert_index in
           if insert_index = m_size v then
             (case construct_at T (ptr_add (GetAddress (m_data v)) (m_size v)) args w of
                (Inl e, w1) \<Rightarrow> (Inl e, v, w1)
              | (Inr u, w1) \<Rightarrow>
                  (Inr (ptr_add (vec_begin (v\<lparr>m_size := Suc (m_size v)\<rparr>)) insert_index),
                   v\<lparr>m_size := Suc (m_size v)\<rparr>, w1))
           else
             (case make_temp T args w of
                (Inl e, w1) \<Rightarrow> (Inl e, v, w1)
              | (Inr temp, w1) \<Rightarrow>
                  (if \<not> m_size v - 1 < m_capacity (m_data v)
                   then (Inl AssertionFailed, v, destroy_temp w1)
                   else
                    (case construct_move T (ptr_add (GetAddress (m_data v)) (m_size v))
                            (ptr_add (GetAddress (m_data v)) (m_size v - 1)) w1 of
                       (Inl e, w2) \<Rightarrow> (Inl e, v, destroy_temp w2)
                     | (Inr u, w2) \<Rightarrow>
                         (case std_move_backward T insert_pos (m_size v - 1 - insert_index) (vec_end v) w2 of
                            (Inl e, w3) \<Rightarrow> (Inl e, v, destroy_temp w3)
                          | (Inr u', w3) \<Rightarrow>
                              (case assign_move_temp T insert_pos temp w3 of
                                 (Inl e, w4) \<Rightarrow> (Inl e, v, destroy_temp w4)
                               | (Inr u'', w4) \<Rightarrow>
                                   (Inr (ptr_add (vec_begin (v\<lparr>m_size := Suc (m_size v)\<rparr>)) insert_index),
                                    v\<lparr>m_size := Suc (m_size v)\<rparr>, destroy_temp w4)))))))
        else
          (case RawMemory_ctor T (if m_size v = 0 then 1 else (2 * m_size v) mod size_t_range) w of
             (Inl e, w1) \<Rightarrow> (Inl e, v, w1)
           | (Inr new_data, w1) \<Rightarrow>
               (let new_begin = GetAddress new_data;
                    old_begin = GetAddress (m_data v);
                    new_insert_pos = ptr_add new_begin insert_index
                in (case MOVE_OR_COPY_IF_NOEXCEPT T old_begin new_begin insert_index w1 of
                     (Inl e, w2) \<Rightarrow> (Inl e, v, RawMemory_dtor new_data w2)
                   | (Inr u, w2) \<Rightarrow>
                       (case construct_at T new_insert_pos args w2 of
                          (Inl e, w3) \<Rightarrow> (Inl e, v, RawMemory_dtor new_data w3)
                        | (Inr u', w3) \<Rightarrow>
                            (case MOVE_OR_COPY_IF_NOEXCEPT T (ptr_add old_begin insert_index)
                                    (ptr_add new_insert_pos 1) (m_size v - insert_index) w3 of
                               (Inl e, w4) \<Rightarrow> (Inl e, v, RawMemory_dtor new_data w4)
                             | (Inr u'', w4) \<Rightarrow>
                                 (let w5 = destroy_n old_begin (m_size v) w4
                                  in (case RawMemory_Swap (m_data v) new_data of
                                       (d, nd) \<Rightarrow>
                                         (Inr new_insert_pos,
                                          v\<lparr>m_data := d, m_size := Suc (m_size v)\<rparr>,
                                          RawMemory_dtor nd w5))))))))))"

definition EmplaceBack :: "'a elem_type \<Rightarrow> 'a arg \<Rightarrow> vector \<Rightarrow> 'a world \<Rightarrow> (error + ptr) \<times> vector \<times> 'a world" where
  "EmplaceBack T elem v w = Emplace T (vec_end v) elem v w"

text \<open>
  \<^verbatim>\<open>PushBack(const T&)\<close> and \<^verbatim>\<open>PushBack(T&&)\<close>, \<^verbatim>\<open>Insert(pos, const T&)\<close> and
  \<^verbatim>\<open>Insert(pos, T&&)\<close>: the overload is the constructor of the argument.
\<close>

definition PushBack :: "'a elem_type \<Rightarrow> 'a arg \<Rightarrow> vector \<Rightarrow> 'a world \<Rightarrow> (error + unit) \<times> vector \<times> 'a world" where
  "PushBack T elem v w = (case EmplaceBack T elem v w of
       (Inl e, v', w') \<Rightarrow> (Inl e, v', w')
     | (Inr p, v', w') \<Rightarrow> (Inr (), v', w'))"

definition Insert :: "'a elem_type \<Rightarrow> ptr \<Rightarrow> 'a arg \<Rightarrow> vector \<Rightarrow> 'a world \<Rightarrow> (error + ptr) \<times> vector \<times> 'a world" where
  "Insert T pos val v w = Emplace T pos val v w"

definition Erase :: "'a elem_type \<Rightarrow> ptr \<Rightarrow> vector \<Rightarrow> 'a world \<Rightarrow> (error + ptr) \<times> vector \<times> 'a world" where
  "Erase T pos v w =
     (if \<not> (fst pos = fst (vec_begin v) \<and> snd pos \<ge> snd (vec_begin v) \<and> snd pos < snd (vec_end v))
      then (Inl AssertionFailed, v, w)
      else (case std_move T (ptr_add pos 1) (snd (vec_end v) - snd (ptr_add pos 1)) pos w of
          (Inl e, w1) \<Rightarrow> (Inl e, v, w1)
        | (Inr u, w1) \<Rightarrow> (case PopBack v w1 of
              (Inl e, v2, w2) \<Rightarrow> (Inl e, v2, w2)
            | (Inr u', v2, w2) \<Rightarrow> (Inr pos, v2, w2))))"

text \<open>\<^verbatim>\<open>operator[]\<close> returns a reference: the address of the element.\<close>

definition index_op :: "vector \<Rightarrow> nat \<Rightarrow> error + ptr" where
  "index_op v index =
     (if \<not> index < m_size v then Inl AssertionFailed
      else if \<not> index < m_capacity (m_data v) then Inl AssertionFailed
      else Inr (ptr_add (GetAddress (m_data v)) index))"

subsection \<open>The assignment operators\<close>

text \<open>
  The assignment operators compare the addresses of their two operands, so the vector
  objects live in a store, addressed by natural numbers: \<open>this\<close> and \<open>rhs\<close> are addresses.
  \<^verbatim>\<open>RawMemory::operator=(RawMemory&&)\<close> is called on the members \<^verbatim>\<open>data_\<close> of the
  two vector objects, which are the same object exactly when the vectors are.
\<close>

definition RawMemory_move_assign :: "nat \<Rightarrow> nat \<Rightarrow> (nat \<Rightarrow> vector) \<Rightarrow> 'a world \<Rightarrow> (nat \<Rightarrow> vector) \<times> 'a world" where
  "RawMemory_move_assign this other objs w =
     (if this \<noteq> other then
        (let w1 = (if m_buffer (m_data (objs this)) \<noteq> None
                   then Deallocate (m_buffer (m_data (objs this))) w else w);
             objs1 = objs(this := (objs this)\<lparr>m_data :=
                        \<lparr>m_buffer = m_buffer (m_data (objs other)),
                         m_capacity = m_capacity (m_data (objs other))\<rparr>\<rparr>);
             objs2 = objs1(other := (objs1 other)\<lparr>m_data := \<lparr>m_buffer = None, m_capacity = 0\<rparr>\<rparr>)
         in (objs2, w1))
      else (objs, w))"

definition Vector_move_assign :: "nat \<Rightarrow> nat \<Rightarrow> (nat \<Rightarrow> vector) \<Rightarrow> 'a world \<Rightarrow> (nat \<Rightarrow> vector) \<times> 'a world" where
  "Vector_move_assign this rhs objs w =
     (if this \<noteq> rhs then
        (case RawMemory_move_assign this rhs objs w of
           (objs1, w1) \<Rightarrow>
             (let objs2 = objs1(this := (objs1 this)\<lparr>m_size := m_size (objs1 rhs)\<rparr>);
                  objs3 = objs2(rhs := (objs2 rhs)\<lparr>m_size := 0\<rparr>)
              in (objs3, w1)))
      else (objs, w))"

definition Vector_copy_assign :: "'a elem_type \<Rightarrow> nat \<Rightarrow> nat \<Rightarrow> (nat \<Rightarrow> vector) \<Rightarrow> 'a world \<Rightarrow> (error + unit) \<times> (nat \<Rightarrow> vector) \<times> 'a world" where
  "Vector_copy_assign T this rhs objs w =
     (if this \<noteq> rhs then
        (if m_size (objs rhs) > m_capacity (m_data (objs this)) then
           (case Vector_copy_ctor T (objs rhs) w of
              (Inl e, w1) \<Rightarrow> (Inl e, objs, w1)
            | (Inr tmp, w1) \<Rightarrow> (case Swap (objs this) tmp of
                  (v', tmp') \<Rightarrow> (Inr (), objs(this := v'), Vector_dtor tmp' w1)))
         else
           (let left = GetAddress (m_data (objs this));
                right = GetAddress (m_data (objs rhs))
            in if m_size (objs rhs) > m_size (objs this) then
                 (case std_copy T right (m_size (objs this)) left w of
                    (Inl e, w1) \<Rightarrow> (Inl e, objs, w1)
                  | (Inr u, w1) \<Rightarrow>
                      (case uninitialized_copy_n T (ptr_add right (m_size (objs this)))
                              (m_size (objs rhs) - m_size (objs this))
                              (ptr_add left (m_size (objs this))) w1 of
                         (Inl e, w2) \<Rightarrow> (Inl e, objs, w2)
                       | (Inr u', w2) \<Rightarrow>
                           (Inr (), objs(this := (objs this)\<lparr>m_size := m_size (objs rhs)\<rparr>), w2)))
               else
                 (case std_copy T right (m_size (objs rhs)) left w of
                    (Inl e, w1) \<Rightarrow> (Inl e, objs, w1)
                  | (Inr u, w1) \<Rightarrow>
                      (Inr (), objs(this := (objs this)\<lparr>m_size := m_size (objs rhs)\<rparr>),
                       destroy_n (ptr_add left (m_size (objs rhs)))
                         (m_size (objs this) - m_size (objs rhs)) w1))))
      else (Inr (), objs, w))"

section \<open>Observations, the state invariant and example inputs\<close>

text \<open>
  What a caller can read from a vector: the values of \<^verbatim>\<open>v[0]\<close>, ..., \<^verbatim>\<open>v[Size() - 1]\<close>
  (\<open>None\<close> where the slot holds no object).
\<close>

definition contents :: "vector \<Rightarrow> 'a world \<Rightarrow> 'a option list" where
  "contents v w = map (\<lambda>i. live_value (ptr_add (vec_begin v) i) w) [0..<m_size v]"

text \<open>
  The state invariant: the length is at most the capacity; a capacity of zero goes with the
  null block; otherwise the block is allocated with \<open>capacity\<close> slots, of which the first
  \<open>length\<close> hold objects and the others are raw.
\<close>

definition valid :: "vector \<Rightarrow> 'a world \<Rightarrow> bool" where
  "valid v w = (m_size v \<le> m_capacity (m_data v) \<and>
     (case m_buffer (m_data v) of
        None \<Rightarrow> m_capacity (m_data v) = 0
      | Some a \<Rightarrow> (case heap w a of
            None \<Rightarrow> False
          | Some slots \<Rightarrow> m_capacity (m_data v) \<noteq> 0 \<and> length slots = m_capacity (m_data v) \<and>
              list_all (\<lambda>s. s \<noteq> None) (take (m_size v) slots) \<and>
              list_all (\<lambda>s. s = None) (drop (m_size v) slots))))"

text \<open>Block addresses are handed out in increasing order: none at or above \<open>next_block\<close> is in use.\<close>

definition fresh :: "'a world \<Rightarrow> bool" where
  "fresh w = (\<forall>a. next_block w \<le> a \<longrightarrow> heap w a = None)"

text \<open>
  A request for \<open>n\<close> elements fits when its byte count does not wrap around.
\<close>

definition fits :: "'a elem_type \<Rightarrow> nat \<Rightarrow> bool" where
  "fits T n = (0 < sizeof_T T \<and> n * sizeof_T T < size_t_range)"

text \<open>
  Four element types: a string (its move constructor cannot throw and leaves the source
  empty), a type that has copy operations only (moving it is copying it, and may throw), the
  same with a copy constructor that cannot throw, and a type that can only be moved, by a
  constructor that may throw and leaves \<open>0\<close> behind.
\<close>

definition string_type :: "string elem_type" where
  "string_type = \<lparr>move_ctor = True, nothrow_move = True, copy_constructible = True, default_value = '''',
     moved_from = (\<lambda>x. ''''), sizeof_T = 32\<rparr>"

definition copy_only_type :: "nat elem_type" where
  "copy_only_type = \<lparr>move_ctor = False, nothrow_move = False, copy_constructible = True, default_value = 0,
     moved_from = (\<lambda>x. x), sizeof_T = 8\<rparr>"

definition nothrow_copy_type :: "nat elem_type" where
  "nothrow_copy_type = \<lparr>move_ctor = False, nothrow_move = True, copy_constructible = True, default_value = 0,
     moved_from = (\<lambda>x. x), sizeof_T = 8\<rparr>"

definition move_only_type :: "nat elem_type" where
  "move_only_type = \<lparr>move_ctor = True, nothrow_move = False, copy_constructible = False, default_value = 0,
     moved_from = (\<lambda>x. 0), sizeof_T = 8\<rparr>"

text \<open>A world with the given blocks and failure injection and all counters at zero, and a vector.\<close>

definition world_of :: "(nat \<Rightarrow> 'a option list option) \<Rightarrow> nat \<Rightarrow> nat option \<Rightarrow> 'a world" where
  "world_of h n f = \<lparr>heap = h, next_block = n, fuse = f, copy_ctors = 0, move_ctors = 0,
     value_ctors = 0, dtors = 0, lost = 0\<rparr>"

definition vec :: "nat option \<Rightarrow> nat \<Rightarrow> nat \<Rightarrow> vector" where
  "vec b c n = \<lparr>m_data = \<lparr>m_buffer = b, m_capacity = c\<rparr>, m_size = n\<rparr>"

subsection \<open>Definitions used in the proofs\<close>

text \<open>
  A step that neither allocates nor releases: the blocks outside \<open>S\<close> are unchanged, every
  block keeps its length, and no object is lost.
\<close>

definition step_ok :: "nat set \<Rightarrow> 'a world \<Rightarrow> 'a world \<Rightarrow> bool" where
  "step_ok S w w' = (next_block w' = next_block w \<and> lost w' = lost w
     \<and> (\<forall>b. b \<notin> S \<longrightarrow> heap w' b = heap w b)
     \<and> (\<forall>b. map_option length (heap w' b) = map_option length (heap w b)))"

fun arg_block :: "'a arg \<Rightarrow> nat set" where
  "arg_block (RvalueRef (At p)) = set_option (fst p)"
| "arg_block a = {}"

fun ext_value :: "'a arg \<Rightarrow> 'a option" where
  "ext_value (ConstRef (Ext x)) = Some x"
| "ext_value (RvalueRef (Ext x)) = Some x"
| "ext_value a = None"

fun arg_copies :: "'a elem_type \<Rightarrow> 'a arg \<Rightarrow> nat" where
  "arg_copies T (ConstRef s) = 1"
| "arg_copies T (RvalueRef s) = (if move_ctor T then 0 else 1)"

fun arg_moves :: "'a elem_type \<Rightarrow> 'a arg \<Rightarrow> nat" where
  "arg_moves T (ConstRef s) = 0"
| "arg_moves T (RvalueRef s) = (if move_ctor T then 1 else 0)"

text \<open>
  A step that may allocate and release: the blocks outside \<open>S\<close> that existed before are
  unchanged.
\<close>

definition frame :: "nat set \<Rightarrow> 'a world \<Rightarrow> 'a world \<Rightarrow> bool" where
  "frame S w w' = (next_block w \<le> next_block w'
     \<and> (\<forall>b. b \<notin> S \<and> b < next_block w \<longrightarrow> heap w' b = heap w b))"

text \<open>
  The frame of a member function: it touches the block of its vector, the blocks \<open>A\<close> and
  new blocks only, and the vector ends with its old block or with a new one.
\<close>

definition vframe :: "nat set \<Rightarrow> vector \<Rightarrow> 'a world \<Rightarrow> vector \<Rightarrow> 'a world \<Rightarrow> bool" where
  "vframe A v w v' w' = (frame (set_option (m_buffer (m_data v)) \<union> A) w w'
     \<and> (\<forall>b. m_buffer (m_data v') = Some b \<longrightarrow> m_buffer (m_data v) = Some b \<or> next_block w \<le> b))"

subsection \<open>Appending a list of values\<close>

text \<open>
  \<^verbatim>\<open>for (x : xs) v.PushBack(x);\<close> The result lists the capacities observed after each
  append that found the capacity full (\<^verbatim>\<open>size_ < data_.Capacity()\<close> false).
\<close>

fun append_all :: "'a elem_type \<Rightarrow> 'a list \<Rightarrow> vector \<Rightarrow> 'a world \<Rightarrow> (error + nat list) \<times> vector \<times> 'a world" where
  "append_all T [] v w = (Inr [], v, w)"
| "append_all T (x # xs) v w =
     (case PushBack T (ConstRef (Ext x)) v w of
        (Inl e, v', w') \<Rightarrow> (Inl e, v', w')
      | (Inr u, v', w') \<Rightarrow>
          (case append_all T xs v' w' of
             (Inl e, v'', w'') \<Rightarrow> (Inl e, v'', w'')
           | (Inr caps, v'', w'') \<Rightarrow>
               (Inr (if Size v < Capacity v then caps else Capacity v' # caps), v'', w'')))"

text \<open>
  The powers of two from \<open>c\<close> up to the first value that is at least \<open>n\<close>;
  \<open>powers_upto 1 n\<close> is the list \<open>1, 2, 4, ...\<close> of the claim.
\<close>

function powers_upto :: "nat \<Rightarrow> nat \<Rightarrow> nat list" where
  "powers_upto c n = (if n \<le> c \<or> c = 0 then [c] else c # powers_upto (2 * c) n)"
  by pat_completeness auto
termination
  by (relation "measure (\<lambda>(c, n). n - c)") auto

text \<open>
  The capacities that \<open>m\<close> appends produce at their growth points, from size \<open>s\<close>
  and capacity \<open>c\<close>, by the growth policy alone.
\<close>

fun growth :: "nat \<Rightarrow> nat \<Rightarrow> nat \<Rightarrow> nat list" where
  "growth s c 0 = []"
| "growth s c (Suc m) =
     (if s < c then growth (Suc s) c m
      else max 1 (2 * c) # growth (Suc s) (max 1 (2 * c)) m)"

declare powers_upto.simps [simp del]

subsection \<open>Mutations of the vectors of a program\<close>

text \<open>
  The vector objects of a program live in the store of the assignment operators. A mutation
  is a call on the object at the address \<open>this\<close>: a mutating member function, with
  positions given as indices, the assignment \<^verbatim>\<open>v[i] = x\<close> through \<^verbatim>\<open>operator[]\<close>,
  one of the two assignment operators with the object at another address as right-hand side,
  or \<^verbatim>\<open>Swap\<close> with the object at another address. \<open>mutate\<close> runs one of them and
  returns the failure it ended with, if any, and the store and the world it leaves.

  An exception leaves the program running. A failed \<^verbatim>\<open>assert\<close> ends it, and after an
  access through a pointer to no suitable slot its behaviour is undefined: \<open>mutate_all\<close>
  runs a list of mutations, each with its own failure injection, as long as neither happens,
  and has no result otherwise.

  \<open>mutation_moves\<close> are the blocks out of which a mutation moves its argument (a mutation
  \<open>steals\<close> from a buffer when it moves its argument out of it), and \<open>mutation_others\<close>
  are the objects that it modifies besides \<open>this\<close>. A step \<open>spares\<close> the object at
  \<open>k\<close> with buffer \<open>buf\<close> when it is a call on another object that neither modifies
  the object at \<open>k\<close> nor steals from its buffer.
\<close>

datatype 'a mutation =
    MReserve nat | MResize nat | MPushBack "'a arg" | MEmplace nat "'a arg"
  | MErase nat | MPopBack | MAssign nat 'a
  | MCopyAssign nat | MMoveAssign nat | MSwap nat

definition failure :: "error + 'b \<Rightarrow> error option" where
  "failure r = (case r of Inl e \<Rightarrow> Some e | Inr y \<Rightarrow> None)"

fun mutate :: "'a elem_type \<Rightarrow> nat \<Rightarrow> 'a mutation \<Rightarrow> (nat \<Rightarrow> vector) \<Rightarrow> 'a world
    \<Rightarrow> error option \<times> (nat \<Rightarrow> vector) \<times> 'a world" where
  "mutate T this (MReserve n) objs w =
     (case Reserve T n (objs this) w of (r, v', w') \<Rightarrow> (failure r, objs(this := v'), w'))"
| "mutate T this (MResize n) objs w =
     (case Resize T n (objs this) w of (r, v', w') \<Rightarrow> (failure r, objs(this := v'), w'))"
| "mutate T this (MPushBack a) objs w =
     (case PushBack T a (objs this) w of (r, v', w') \<Rightarrow> (failure r, objs(this := v'), w'))"
| "mutate T this (MEmplace i a) objs w =
     (case Emplace T (ptr_add (vec_begin (objs this)) i) a (objs this) w of
        (r, v', w') \<Rightarrow> (failure r, objs(this := v'), w'))"
| "mutate T this (MErase i) objs w =
     (case Erase T (ptr_add (vec_begin (objs this)) i) (objs this) w of
        (r, v', w') \<Rightarrow> (failure r, objs(this := v'), w'))"
| "mutate T this MPopBack objs w =
     (case PopBack (objs this) w of (r, v', w') \<Rightarrow> (failure r, objs(this := v'), w'))"
| "mutate T this (MAssign i x) objs w =
     (case index_op (objs this) i of
        Inl e \<Rightarrow> (Some e, objs, w)
      | Inr p \<Rightarrow> (case assign_move_temp T p x w of (r, w') \<Rightarrow> (failure r, objs, w')))"
| "mutate T this (MCopyAssign rhs) objs w =
     (case Vector_copy_assign T this rhs objs w of (r, objs', w') \<Rightarrow> (failure r, objs', w'))"
| "mutate T this (MMoveAssign rhs) objs w =
     (case Vector_move_assign this rhs objs w of (objs', w') \<Rightarrow> (None, objs', w'))"
| "mutate T this (MSwap other) objs w =
     (case Swap (objs this) (objs other) of (v', o') \<Rightarrow> (None, (objs(other := o'))(this := v'), w))"

fun mutate_all :: "'a elem_type \<Rightarrow> (nat option \<times> nat \<times> 'a mutation) list \<Rightarrow> (nat \<Rightarrow> vector) \<Rightarrow> 'a world
    \<Rightarrow> ((nat \<Rightarrow> vector) \<times> 'a world) option" where
  "mutate_all T [] objs w = Some (objs, w)"
| "mutate_all T ((f, this, m) # ms) objs w =
     (case mutate T this m objs (w\<lparr>fuse := f\<rparr>) of
        (e, objs', w') \<Rightarrow>
          if e = Some AssertionFailed \<or> e = Some InvalidAccess then None
          else mutate_all T ms objs' w')"






definition sole_owner :: "nat \<Rightarrow> (nat \<Rightarrow> vector) \<Rightarrow> 'a world \<Rightarrow> bool" where
  "sole_owner k objs w = (\<forall>b. m_buffer (m_data (objs k)) = Some b \<longrightarrow>
     b < next_block w \<and> (\<forall>j. j \<noteq> k \<longrightarrow> m_buffer (m_data (objs j)) \<noteq> Some b))"

section \<open>Properties\<close>

subsection \<open>Frames, slots and the loops of the standard library\<close>

lemma step_ok_refl: "step_ok S w w"
  by (simp add: step_ok_def)

lemma step_ok_trans: "step_ok S w w1 \<Longrightarrow> step_ok S w1 w2 \<Longrightarrow> step_ok S w w2"
  by (simp add: step_ok_def)

lemma step_ok_mono: "step_ok S w w' \<Longrightarrow> S \<subseteq> S' \<Longrightarrow> step_ok S' w w'"
  by (auto simp: step_ok_def)

lemma step_ok_tick: "tick w = (b, w') \<Longrightarrow> step_ok S w w'"
  by (auto simp: tick_def step_ok_def split: option.splits nat.splits)

lemma step_ok_write: "step_ok (set_option (fst p)) w (write_slot p s w)"
  by (auto simp: write_slot_def step_ok_def split: option.splits)

lemma step_ok_counters:
  "step_ok S w (w'\<lparr>copy_ctors := c\<rparr>) = step_ok S w w'"
  "step_ok S w (w'\<lparr>move_ctors := c\<rparr>) = step_ok S w w'"
  "step_ok S w (w'\<lparr>value_ctors := c\<rparr>) = step_ok S w w'"
  "step_ok S w (w'\<lparr>dtors := c\<rparr>) = step_ok S w w'"
  by (simp_all add: step_ok_def)

lemma step_ok_tick_write:
  "tick w = (b, w') \<Longrightarrow> step_ok (set_option (fst p)) w (write_slot p s w')"
  by (meson step_ok_tick step_ok_write step_ok_trans)


lemma count_fields [simp]:
  "heap (count_copy w) = heap w"
  "next_block (count_copy w) = next_block w"
  "fuse (count_copy w) = fuse w"
  "lost (count_copy w) = lost w"
  "dtors (count_copy w) = dtors w"
  "value_ctors (count_copy w) = value_ctors w"
  "copy_ctors (count_copy w) = Suc (copy_ctors w)"
  "move_ctors (count_copy w) = move_ctors w"
  "heap (count_rvalue T w) = heap w"
  "next_block (count_rvalue T w) = next_block w"
  "fuse (count_rvalue T w) = fuse w"
  "lost (count_rvalue T w) = lost w"
  "dtors (count_rvalue T w) = dtors w"
  "value_ctors (count_rvalue T w) = value_ctors w"
  "copy_ctors (count_rvalue T w) = (if move_ctor T then copy_ctors w else Suc (copy_ctors w))"
  "move_ctors (count_rvalue T w) = (if move_ctor T then Suc (move_ctors w) else move_ctors w)"
  by (simp_all add: count_copy_def count_rvalue_def)

lemma step_ok_count [simp]:
  "step_ok S w (count_copy w') = step_ok S w w'"
  "step_ok S w (count_rvalue T w') = step_ok S w w'"
  by (simp_all add: step_ok_def)

lemmas prim_defs = construct_copy_def construct_move_def construct_value_def assign_copy_def
  assign_move_def assign_move_temp_def destroy_at_def destroy_temp_def tick_def write_slot_def

lemmas prim_splits = option.splits if_splits prod.splits bool.splits nat.splits

lemma construct_copy_step:
  "construct_copy T dst src w = (r, w') \<Longrightarrow> step_ok (set_option (fst dst)) w w'"
  by (auto simp: prim_defs step_ok_def split: prim_splits)

lemma construct_move_step:
  "construct_move T dst src w = (r, w') \<Longrightarrow> step_ok (set_option (fst dst) \<union> set_option (fst src)) w w'"
  by (auto simp: prim_defs step_ok_def split: prim_splits)



lemma assign_move_step:
  "assign_move T dst src w = (r, w') \<Longrightarrow> step_ok (set_option (fst dst) \<union> set_option (fst src)) w w'"
  by (auto simp: prim_defs step_ok_def split: prim_splits)

lemma assign_move_temp_step:
  "assign_move_temp T dst x w = (r, w') \<Longrightarrow> step_ok (set_option (fst dst)) w w'"
  by (auto simp: prim_defs step_ok_def split: prim_splits)

lemma destroy_at_step: "step_ok (set_option (fst p)) w (destroy_at p w)"
  by (auto simp: prim_defs step_ok_def split: prim_splits)

lemma destroy_temp_step: "step_ok S w (destroy_temp w)"
  by (auto simp: prim_defs step_ok_def split: prim_splits)

lemma construct_at_step:
  "construct_at T dst a w = (r, w') \<Longrightarrow> step_ok (set_option (fst dst) \<union> arg_block a) w w'"
  by (induction T dst a w rule: construct_at.induct)
     (auto simp: prim_defs step_ok_def split: prim_splits)

lemma make_temp_step:
  "make_temp T a w = (r, w') \<Longrightarrow> step_ok (arg_block a) w w'"
  by (induction T a w rule: make_temp.induct)
     (auto simp: prim_defs step_ok_def split: prim_splits)

lemma destroy_n_step: "step_ok (set_option (fst p)) w (destroy_n p n w)"
proof (induction n arbitrary: p w)
  case 0
  show ?case by (simp add: step_ok_refl)
next
  case (Suc n)
  have "step_ok (set_option (fst p)) (destroy_at p w) (destroy_n (ptr_add p 1) n (destroy_at p w))"
    using Suc [of "ptr_add p 1" "destroy_at p w"] by (simp add: ptr_add_def)
  with destroy_at_step [of p w] show ?case
    by (auto intro: step_ok_trans)
qed

lemma uninitialized_copy_from_step:
  "uninitialized_copy_from T src dst i n w = (r, w') \<Longrightarrow> step_ok (set_option (fst dst)) w w'"
proof (induction n arbitrary: i w)
  case 0
  then show ?case by (simp add: step_ok_refl)
next
  case (Suc n)
  obtain r1 w1 where c: "construct_copy T (ptr_add dst i) (ptr_add src i) w = (r1, w1)"
    by force
  have s1: "step_ok (set_option (fst dst)) w w1"
    using construct_copy_step [OF c] by (simp add: ptr_add_def)
  show ?case
  proof (cases r1)
    case (Inl e)
    with Suc.prems c have "w' = destroy_n dst i w1" by simp
    with s1 destroy_n_step [of dst w1 i] show ?thesis by (auto intro: step_ok_trans)
  next
    case (Inr u)
    with Suc.prems c have "uninitialized_copy_from T src dst (Suc i) n w1 = (r, w')" by simp
    from Suc.IH [OF this] s1 show ?thesis by (auto intro: step_ok_trans)
  qed
qed


lemma uninitialized_move_from_step:
  "uninitialized_move_from T src dst i n w = (r, w') \<Longrightarrow>
     step_ok (set_option (fst dst) \<union> set_option (fst src)) w w'"
proof (induction n arbitrary: i w)
  case 0
  then show ?case by (simp add: step_ok_refl)
next
  case (Suc n)
  let ?S = "set_option (fst dst) \<union> set_option (fst src)"
  obtain r1 w1 where c: "construct_move T (ptr_add dst i) (ptr_add src i) w = (r1, w1)"
    by force
  have s1: "step_ok ?S w w1"
    using construct_move_step [OF c] by (simp add: ptr_add_def)
  show ?case
  proof (cases r1)
    case (Inl e)
    with Suc.prems c have "w' = destroy_n dst i w1" by simp
    moreover have "step_ok ?S w1 (destroy_n dst i w1)"
      by (rule step_ok_mono [OF destroy_n_step]) simp
    ultimately show ?thesis using s1 by (auto intro: step_ok_trans)
  next
    case (Inr u)
    with Suc.prems c have "uninitialized_move_from T src dst (Suc i) n w1 = (r, w')" by simp
    from Suc.IH [OF this] s1 show ?thesis by (auto intro: step_ok_trans)
  qed
qed




lemma std_move_backward_step:
  "std_move_backward T first n d_last w = (r, w') \<Longrightarrow>
     step_ok (set_option (fst d_last) \<union> set_option (fst first)) w w'"
proof (induction n arbitrary: d_last w)
  case 0
  then show ?case by (simp add: step_ok_refl)
next
  case (Suc n)
  obtain r1 w1 where c: "assign_move T (fst d_last, snd d_last - 1) (ptr_add first n) w = (r1, w1)"
    by force
  have s1: "step_ok (set_option (fst d_last) \<union> set_option (fst first)) w w1"
    using assign_move_step [OF c] by (simp add: ptr_add_def)
  show ?case
  proof (cases r1)
    case (Inl e)
    with Suc.prems c s1 show ?thesis by simp
  next
    case (Inr u)
    with Suc.prems c have "std_move_backward T first n (fst d_last, snd d_last - 1) w1 = (r, w')" by simp
    from Suc.IH [OF this] s1 show ?thesis by (auto intro: step_ok_trans)
  qed
qed

lemma MOVE_OR_COPY_step:
  "MOVE_OR_COPY_IF_NOEXCEPT T old_begin new_begin n w = (r, w') \<Longrightarrow>
     step_ok (set_option (fst new_begin) \<union> set_option (fst old_begin)) w w'"
  unfolding MOVE_OR_COPY_IF_NOEXCEPT_def uninitialized_move_n_def uninitialized_copy_n_def
  by (auto split: if_splits dest: uninitialized_move_from_step
      dest!: uninitialized_copy_from_step elim: step_ok_mono)

lemma tick_fields [simp]:
  "heap (snd (tick w)) = heap w"
  "next_block (snd (tick w)) = next_block w"
  "copy_ctors (snd (tick w)) = copy_ctors w"
  "move_ctors (snd (tick w)) = move_ctors w"
  "value_ctors (snd (tick w)) = value_ctors w"
  "dtors (snd (tick w)) = dtors w"
  "lost (snd (tick w)) = lost w"
  by (simp_all add: tick_def split: option.splits nat.splits)

lemma slot_at_heap: "heap w' = heap w \<Longrightarrow> slot_at p w' = slot_at p w"
  by (simp add: slot_at_def cong: option.case_cong)

lemma slot_at_fields [simp]:
  "slot_at p (w\<lparr>copy_ctors := c\<rparr>) = slot_at p w"
  "slot_at p (w\<lparr>move_ctors := c\<rparr>) = slot_at p w"
  "slot_at p (w\<lparr>value_ctors := c\<rparr>) = slot_at p w"
  "slot_at p (w\<lparr>dtors := c\<rparr>) = slot_at p w"
  "slot_at p (w\<lparr>fuse := f\<rparr>) = slot_at p w"
  "slot_at p (snd (tick w)) = slot_at p w"
  "slot_at p (count_copy w) = slot_at p w"
  "slot_at p (count_rvalue T w) = slot_at p w"
  by (rule slot_at_heap, simp)+

lemma slot_at_write:
  "slot_at p (write_slot q s w) = (if p = q \<and> slot_at q w \<noteq> None then Some s else slot_at p w)"
  by (cases p; cases q) (auto simp: slot_at_def write_slot_def split: option.splits)

lemma live_value_Some: "(live_value p w = Some x) = (slot_at p w = Some (Some x))"
  by (auto simp: live_value_def split: option.splits)

lemma live_value_None: "(live_value p w = None) = (slot_at p w = None \<or> slot_at p w = Some None)"
  by (auto simp: live_value_def split: option.splits)

lemmas tick_case = case_prod_beta bool.case_eq_if

lemma construct_copy_slot:
  "construct_copy T dst src w = (Inr u, w') \<Longrightarrow>
     slot_at p w' = (if p = dst then slot_at src w else slot_at p w)"
  by (auto simp: construct_copy_def tick_case slot_at_write live_value_Some
      split: option.splits if_splits)

lemma construct_move_slot:
  "construct_move T dst src w = (Inr u, w') \<Longrightarrow> dst \<noteq> src \<Longrightarrow>
     slot_at p w' = (if p = dst then slot_at src w
        else if p = src then map_option (map_option (moved_out T)) (slot_at src w)
        else slot_at p w)"
  by (auto simp: construct_move_def tick_case slot_at_write live_value_Some
      split: option.splits if_splits)

lemma construct_value_slot:
  "construct_value T dst w = (Inr u, w') \<Longrightarrow>
     slot_at p w' = (if p = dst then Some (Some (default_value T)) else slot_at p w)"
  by (auto simp: construct_value_def tick_case slot_at_write live_value_Some
      split: option.splits if_splits)

lemma assign_move_slot:
  "assign_move T dst src w = (Inr u, w') \<Longrightarrow> dst \<noteq> src \<Longrightarrow>
     slot_at p w' = (if p = dst then slot_at src w
        else if p = src then map_option (map_option (moved_from T)) (slot_at src w)
        else slot_at p w)"
  by (auto simp: assign_move_def tick_case slot_at_write live_value_Some live_value_None
      split: option.splits if_splits)

lemma destroy_at_slot:
  "slot_at p (destroy_at q w) = (if p = q then map_option (\<lambda>s. None) (slot_at p w) else slot_at p w)"
  by (auto simp: destroy_at_def slot_at_write live_value_Some live_value_None
      split: option.splits)

lemma destroy_n_slot:
  "slot_at p (destroy_n q n w) =
     (if fst p = fst q \<and> snd q \<le> snd p \<and> snd p < snd q + n
      then map_option (\<lambda>s. None) (slot_at p w) else slot_at p w)"
proof (induction n arbitrary: q w)
  case 0
  show ?case by auto
next
  case (Suc n)
  show ?case
    by (auto simp: Suc destroy_at_slot ptr_add_def option.map_comp comp_def prod_eq_iff)
qed

lemma construct_copy_Inr:
  "construct_copy T dst src w = (Inr u, w') \<Longrightarrow>
     slot_at dst w \<noteq> None \<and> (\<exists>x. slot_at src w = Some (Some x))
     \<and> copy_ctors w' = Suc (copy_ctors w) \<and> move_ctors w' = move_ctors w"
  by (auto simp: construct_copy_def tick_case live_value_Some write_slot_def
      split: option.splits if_splits)

lemma construct_move_Inr:
  "construct_move T dst src w = (Inr u, w') \<Longrightarrow>
     slot_at dst w \<noteq> None \<and> (\<exists>x. slot_at src w = Some (Some x))
     \<and> (if move_ctor T then move_ctors w' = Suc (move_ctors w) \<and> copy_ctors w' = copy_ctors w
        else copy_ctors w' = Suc (copy_ctors w) \<and> move_ctors w' = move_ctors w)"
  by (auto simp: construct_move_def tick_case live_value_Some write_slot_def
      split: option.splits if_splits)

lemma uninitialized_copy_from_slot:
  "uninitialized_copy_from T src dst i n w = (Inr u, w') \<Longrightarrow> fst src \<noteq> fst dst \<Longrightarrow>
     slot_at (a, k) w' =
       (if a = fst dst \<and> snd dst + i \<le> k \<and> k < snd dst + i + n
        then slot_at (fst src, snd src + (k - snd dst)) w else slot_at (a, k) w)"
proof (induction n arbitrary: i w)
  case 0
  then show ?case by auto
next
  case (Suc n)
  from Suc.prems(1) obtain u1 w1
    where c: "construct_copy T (ptr_add dst i) (ptr_add src i) w = (Inr u1, w1)"
      and r: "uninitialized_copy_from T src dst (Suc i) n w1 = (Inr u, w')"
    by (auto split: prod.splits sum.splits)
  show ?case
    using Suc.prems(2)
    by (auto simp: Suc.IH [OF r Suc.prems(2)] construct_copy_slot [OF c] ptr_add_def prod_eq_iff)
qed

lemma uninitialized_copy_from_counters:
  "uninitialized_copy_from T src dst i n w = (Inr u, w') \<Longrightarrow>
     copy_ctors w' = copy_ctors w + n \<and> move_ctors w' = move_ctors w"
proof (induction n arbitrary: i w)
  case 0
  then show ?case by auto
next
  case (Suc n)
  from Suc.prems(1) obtain u1 w1
    where c: "construct_copy T (ptr_add dst i) (ptr_add src i) w = (Inr u1, w1)"
      and r: "uninitialized_copy_from T src dst (Suc i) n w1 = (Inr u, w')"
    by (auto split: prod.splits sum.splits)
  show ?case
    using Suc.IH [OF r] construct_copy_Inr [OF c] by simp
qed

lemma uninitialized_move_from_slot:
  "uninitialized_move_from T src dst i n w = (Inr u, w') \<Longrightarrow> fst src \<noteq> fst dst \<Longrightarrow>
     slot_at (a, k) w' =
       (if a = fst dst \<and> snd dst + i \<le> k \<and> k < snd dst + i + n
        then slot_at (fst src, snd src + (k - snd dst)) w
        else if a = fst src \<and> snd src + i \<le> k \<and> k < snd src + i + n
        then map_option (map_option (moved_out T)) (slot_at (a, k) w)
        else slot_at (a, k) w)"
proof (induction n arbitrary: i w)
  case 0
  then show ?case by auto
next
  case (Suc n)
  from Suc.prems(1) obtain u1 w1
    where c: "construct_move T (ptr_add dst i) (ptr_add src i) w = (Inr u1, w1)"
      and r: "uninitialized_move_from T src dst (Suc i) n w1 = (Inr u, w')"
    by (auto split: prod.splits sum.splits)
  have ne: "ptr_add dst i \<noteq> ptr_add src i"
    using Suc.prems(2) by (auto simp: ptr_add_def)
  show ?case
    using Suc.prems(2)
    by (auto simp: Suc.IH [OF r Suc.prems(2)] construct_move_slot [OF c ne] ptr_add_def prod_eq_iff)
qed

lemma uninitialized_move_from_counters:
  "uninitialized_move_from T src dst i n w = (Inr u, w') \<Longrightarrow>
     (if move_ctor T then move_ctors w' = move_ctors w + n \<and> copy_ctors w' = copy_ctors w
      else copy_ctors w' = copy_ctors w + n \<and> move_ctors w' = move_ctors w)"
proof (induction n arbitrary: i w)
  case 0
  then show ?case by auto
next
  case (Suc n)
  from Suc.prems(1) obtain u1 w1
    where c: "construct_move T (ptr_add dst i) (ptr_add src i) w = (Inr u1, w1)"
      and r: "uninitialized_move_from T src dst (Suc i) n w1 = (Inr u, w')"
    by (auto split: prod.splits sum.splits)
  show ?case
    using Suc.IH [OF r] construct_move_Inr [OF c] by (simp split: if_splits)
qed

lemma write_slot_fields [simp]:
  "fuse (write_slot p s w) = fuse w"
  "next_block (write_slot p s w) = next_block w"
  "copy_ctors (write_slot p s w) = copy_ctors w"
  "move_ctors (write_slot p s w) = move_ctors w"
  "value_ctors (write_slot p s w) = value_ctors w"
  "dtors (write_slot p s w) = dtors w"
  "lost (write_slot p s w) = lost w"
  by (simp_all add: write_slot_def split: option.splits)

lemma tick_no_fuse: "fuse w = None \<Longrightarrow> tick w = (False, w)"
  by (simp add: tick_def)

lemma construct_copy_succeeds:
  "fuse w = None \<Longrightarrow> live_value src w \<noteq> None \<Longrightarrow> slot_at dst w \<noteq> None \<Longrightarrow>
     \<exists>w'. construct_copy T dst src w = (Inr (), w') \<and> fuse w' = None"
  by (auto simp: construct_copy_def tick_no_fuse)

lemma construct_move_succeeds:
  "fuse w = None \<or> nothrow_move T \<Longrightarrow> live_value src w \<noteq> None \<Longrightarrow> slot_at dst w \<noteq> None \<Longrightarrow>
     \<exists>w'. construct_move T dst src w = (Inr (), w') \<and> fuse w' = fuse w"
  by (auto simp: construct_move_def tick_no_fuse)

lemma uninitialized_copy_from_succeeds:
  "fuse w = None \<Longrightarrow> fst src \<noteq> fst dst \<Longrightarrow>
   (\<And>j. i \<le> j \<Longrightarrow> j < i + n \<Longrightarrow>
      live_value (ptr_add src j) w \<noteq> None \<and> slot_at (ptr_add dst j) w \<noteq> None) \<Longrightarrow>
   \<exists>w'. uninitialized_copy_from T src dst i n w = (Inr (), w') \<and> fuse w' = None"
proof (induction n arbitrary: i w)
  case 0
  then show ?case by simp
next
  case (Suc n)
  have "live_value (ptr_add src i) w \<noteq> None \<and> slot_at (ptr_add dst i) w \<noteq> None"
    using Suc.prems(3) [of i] by simp
  with Suc.prems(1) obtain w1
    where c: "construct_copy T (ptr_add dst i) (ptr_add src i) w = (Inr (), w1)"
      and f: "fuse w1 = None"
    using construct_copy_succeeds by blast
  have "\<exists>w'. uninitialized_copy_from T src dst (Suc i) n w1 = (Inr (), w') \<and> fuse w' = None"
  proof (rule Suc.IH [OF f Suc.prems(2)])
    fix j assume j: "Suc i \<le> j" "j < Suc i + n"
    have "live_value (ptr_add src j) w \<noteq> None \<and> slot_at (ptr_add dst j) w \<noteq> None"
      using Suc.prems(3) [of j] j by simp
    then show "live_value (ptr_add src j) w1 \<noteq> None \<and> slot_at (ptr_add dst j) w1 \<noteq> None"
      using j Suc.prems(2)
      by (auto simp: live_value_None construct_copy_slot [OF c] ptr_add_def prod_eq_iff)
  qed
  with c show ?case by simp
qed

lemma uninitialized_move_from_succeeds:
  "fuse w = None \<or> nothrow_move T \<Longrightarrow> fst src \<noteq> fst dst \<Longrightarrow>
   (\<And>j. i \<le> j \<Longrightarrow> j < i + n \<Longrightarrow>
      live_value (ptr_add src j) w \<noteq> None \<and> slot_at (ptr_add dst j) w \<noteq> None) \<Longrightarrow>
   \<exists>w'. uninitialized_move_from T src dst i n w = (Inr (), w') \<and> fuse w' = fuse w"
proof (induction n arbitrary: i w)
  case 0
  then show ?case by simp
next
  case (Suc n)
  have "live_value (ptr_add src i) w \<noteq> None \<and> slot_at (ptr_add dst i) w \<noteq> None"
    using Suc.prems(3) [of i] by simp
  with Suc.prems(1) obtain w1
    where c: "construct_move T (ptr_add dst i) (ptr_add src i) w = (Inr (), w1)"
      and f: "fuse w1 = fuse w"
    using construct_move_succeeds by blast
  have ne: "ptr_add dst i \<noteq> ptr_add src i"
    using Suc.prems(2) by (auto simp: ptr_add_def)
  have "\<exists>w'. uninitialized_move_from T src dst (Suc i) n w1 = (Inr (), w') \<and> fuse w' = fuse w1"
  proof (rule Suc.IH [OF _ Suc.prems(2)])
    show "fuse w1 = None \<or> nothrow_move T" using Suc.prems(1) f by simp
  next
    fix j assume j: "Suc i \<le> j" "j < Suc i + n"
    have "live_value (ptr_add src j) w \<noteq> None \<and> slot_at (ptr_add dst j) w \<noteq> None"
      using Suc.prems(3) [of j] j by simp
    then show "live_value (ptr_add src j) w1 \<noteq> None \<and> slot_at (ptr_add dst j) w1 \<noteq> None"
      using j Suc.prems(2)
      by (auto simp: live_value_None construct_move_slot [OF c ne] ptr_add_def prod_eq_iff)
  qed
  with c f show ?case by simp
qed

text \<open>failure of the copying loop: everything it constructed is destroyed again\<close>

lemma uninitialized_copy_from_fails:
  "uninitialized_copy_from T src dst i n w = (Inl e, w') \<Longrightarrow>
     \<exists>m\<ge>i. \<forall>a k. slot_at (a, k) w' =
       (if a = fst dst \<and> snd dst \<le> k \<and> k < snd dst + m
        then map_option (\<lambda>s. None) (slot_at (a, k) w) else slot_at (a, k) w)"
proof (induction n arbitrary: i w)
  case 0
  then show ?case by simp
next
  case (Suc n)
  obtain r1 w1 where c: "construct_copy T (ptr_add dst i) (ptr_add src i) w = (r1, w1)"
    by force
  show ?case
  proof (cases r1)
    case (Inl e1)
    with Suc.prems c have w': "w' = destroy_n dst i w1" by simp
    from c Inl have "heap w1 = heap w"
      by (auto simp: construct_copy_def tick_case split: option.splits if_splits)
    then have "\<And>p. slot_at p w1 = slot_at p w" by (rule slot_at_heap)
    then have "\<forall>a k. slot_at (a, k) w' =
       (if a = fst dst \<and> snd dst \<le> k \<and> k < snd dst + i
        then map_option (\<lambda>s. None) (slot_at (a, k) w) else slot_at (a, k) w)"
      by (simp add: w' destroy_n_slot)
    then show ?thesis by blast
  next
    case (Inr u1)
    with Suc.prems c have r: "uninitialized_copy_from T src dst (Suc i) n w1 = (Inl e, w')" by simp
    from Suc.IH [OF r] obtain m where m: "Suc i \<le> m"
      and sl: "\<And>a k. slot_at (a, k) w' =
       (if a = fst dst \<and> snd dst \<le> k \<and> k < snd dst + m
        then map_option (\<lambda>s. None) (slot_at (a, k) w1) else slot_at (a, k) w1)"
      by blast
    from c Inr have c': "construct_copy T (ptr_add dst i) (ptr_add src i) w = (Inr u1, w1)" by simp
    have "\<forall>a k. slot_at (a, k) w' =
       (if a = fst dst \<and> snd dst \<le> k \<and> k < snd dst + m
        then map_option (\<lambda>s. None) (slot_at (a, k) w) else slot_at (a, k) w)"
      using m construct_copy_Inr [OF c']
      by (auto simp: sl construct_copy_slot [OF c'] ptr_add_def)
    with m show ?thesis by (intro exI [of _ m]) simp
  qed
qed

lemma fits_slots: "fits T n \<Longrightarrow> ((n * sizeof_T T) mod size_t_range) div sizeof_T T = n"
  by (simp add: fits_def)

lemma fits_mono: "fits T n \<Longrightarrow> k \<le> n \<Longrightarrow> fits T k"
  unfolding fits_def by (meson le_less_trans mult_le_mono1)

lemma fits_double: "fits T (2 * n) \<Longrightarrow> (2 * n) mod size_t_range = 2 * n"
proof -
  assume f: "fits T (2 * n)"
  then have "1 \<le> sizeof_T T" by (simp add: fits_def)
  then have "2 * n * 1 \<le> 2 * n * sizeof_T T" by (rule mult_le_mono2)
  then have a: "2 * n \<le> 2 * n * sizeof_T T" by (simp only: mult_1_right)
  from f have b: "2 * n * sizeof_T T < size_t_range" by (simp add: fits_def)
  from a b have "2 * n < size_t_range" by (rule le_less_trans)
  then show ?thesis by simp
qed

lemma RawMemory_ctor_Inr:
  "RawMemory_ctor T n w = (Inr d, w') \<Longrightarrow> n \<noteq> 0 \<Longrightarrow> fits T n \<Longrightarrow>
     d = \<lparr>m_buffer = Some (next_block w), m_capacity = n\<rparr>
     \<and> heap w' = (heap w)(next_block w := Some (replicate n None))
     \<and> next_block w' = Suc (next_block w) \<and> lost w' = lost w
     \<and> copy_ctors w' = copy_ctors w \<and> move_ctors w' = move_ctors w"
  by (auto simp: RawMemory_ctor_def Allocate_def tick_case fits_slots split: if_splits)

lemma RawMemory_ctor_Inl:
  "RawMemory_ctor T n w = (Inl e, w') \<Longrightarrow> heap w' = heap w \<and> lost w' = lost w \<and> next_block w' = next_block w"
  by (auto simp: RawMemory_ctor_def Allocate_def tick_case split: if_splits)

lemma RawMemory_ctor_succeeds:
  "fuse w = None \<Longrightarrow> \<exists>d w'. RawMemory_ctor T n w = (Inr d, w') \<and> fuse w' = None"
  by (auto simp: RawMemory_ctor_def Allocate_def tick_no_fuse)

lemma slot_at_alloc:
  "heap w' = (heap w)(b := Some (replicate n None)) \<Longrightarrow>
     slot_at (a, k) w' = (if a = Some b then (if k < n then Some None else None) else slot_at (a, k) w)"
  by (auto simp: slot_at_def split: option.splits)

lemma Deallocate_fields [simp]:
  "next_block (Deallocate buf w) = next_block w"
  "fuse (Deallocate buf w) = fuse w"
  "copy_ctors (Deallocate buf w) = copy_ctors w"
  "move_ctors (Deallocate buf w) = move_ctors w"
  "dtors (Deallocate buf w) = dtors w"
  by (simp_all add: Deallocate_def split: option.splits)

lemma heap_Deallocate:
  "heap (Deallocate buf w) = (case buf of None \<Rightarrow> heap w | Some a \<Rightarrow> (heap w)(a := None))"
  by (auto simp: Deallocate_def split: option.splits)

lemma slot_at_Deallocate:
  "slot_at (a, k) (Deallocate buf w) = (if a \<noteq> None \<and> a = buf then None else slot_at (a, k) w)"
  by (auto simp: slot_at_def heap_Deallocate split: option.splits)

lemma live_count_0: "(\<And>k. k < length slots \<Longrightarrow> slots ! k = None) \<Longrightarrow> live_count slots = 0"
  by (auto simp: live_count_def filter_empty_conv in_set_conv_nth)

lemma lost_Deallocate:
  "(\<And>k. live_value (buf, k) w = None) \<Longrightarrow> lost (Deallocate buf w) = lost w"
proof (cases buf)
  case None
  then show ?thesis by (simp add: Deallocate_def)
next
  case (Some a)
  assume r: "\<And>k. live_value (buf, k) w = None"
  show ?thesis
  proof (cases "heap w a")
    case None
    with Some show ?thesis by (simp add: Deallocate_def)
  next
    case (Some slots)
    have "slots ! k = None" if "k < length slots" for k
      using r [of k] that Some \<open>buf = Some a\<close>
      by (auto simp: live_value_def slot_at_def split: option.splits)
    then have "live_count slots = 0" by (rule live_count_0)
    with Some \<open>buf = Some a\<close> show ?thesis by (simp add: Deallocate_def)
  qed
qed

lemma valid_iff:
  "valid v w = (m_size v \<le> m_capacity (m_data v) \<and>
     (case m_buffer (m_data v) of
        None \<Rightarrow> m_capacity (m_data v) = 0
      | Some a \<Rightarrow> m_capacity (m_data v) \<noteq> 0
          \<and> map_option length (heap w a) = Some (m_capacity (m_data v))
          \<and> (\<forall>k<m_size v. live_value (Some a, k) w \<noteq> None)
          \<and> (\<forall>k. m_size v \<le> k \<and> k < m_capacity (m_data v) \<longrightarrow> slot_at (Some a, k) w = Some None)))"
proof (cases "m_buffer (m_data v)")
  case None
  then show ?thesis by (simp add: valid_def)
next
  case (Some a)
  show ?thesis
  proof (cases "heap w a")
    case None
    with Some show ?thesis by (simp add: valid_def)
  next
    case (Some slots)
    have 1: "list_all (\<lambda>s. s \<noteq> None) (take (m_size v) slots) = (\<forall>k<m_size v. live_value (Some a, k) w \<noteq> None)"
      if "m_size v \<le> length slots"
      using that Some by (auto simp: list_all_length live_value_def slot_at_def split: option.splits)
    have 2: "list_all (\<lambda>s. s = None) (drop (m_size v) slots) =
             (\<forall>k. m_size v \<le> k \<and> k < length slots \<longrightarrow> slot_at (Some a, k) w = Some None)"
    proof
      assume l: "list_all (\<lambda>s. s = None) (drop (m_size v) slots)"
      show "\<forall>k. m_size v \<le> k \<and> k < length slots \<longrightarrow> slot_at (Some a, k) w = Some None"
      proof (intro allI impI)
        fix k assume k: "m_size v \<le> k \<and> k < length slots"
        then have "k - m_size v < length (drop (m_size v) slots)" by auto
        with l have "drop (m_size v) slots ! (k - m_size v) = None"
          unfolding list_all_length by blast
        with k show "slot_at (Some a, k) w = Some None"
          using Some by (simp add: slot_at_def)
      qed
    next
      assume r: "\<forall>k. m_size v \<le> k \<and> k < length slots \<longrightarrow> slot_at (Some a, k) w = Some None"
      show "list_all (\<lambda>s. s = None) (drop (m_size v) slots)"
        unfolding list_all_length
      proof (intro allI impI)
        fix n assume "n < length (drop (m_size v) slots)"
        then have "m_size v \<le> m_size v + n \<and> m_size v + n < length slots" by simp
        with r have "slot_at (Some a, m_size v + n) w = Some None" by blast
        then show "drop (m_size v) slots ! n = None"
          using Some \<open>m_size v \<le> m_size v + n \<and> m_size v + n < length slots\<close>
          by (simp add: slot_at_def)
      qed
    qed
    show ?thesis
      using Some \<open>m_buffer (m_data v) = Some a\<close> 1 2
      by (auto simp: valid_def)
  qed
qed

lemma MOVE_OR_COPY_slot:
  "MOVE_OR_COPY_IF_NOEXCEPT T src dst n w = (Inr u, w') \<Longrightarrow> fst src \<noteq> fst dst \<Longrightarrow>
   a \<noteq> fst src \<or> k < snd src \<or> snd src + n \<le> k \<Longrightarrow>
     slot_at (a, k) w' =
       (if a = fst dst \<and> snd dst \<le> k \<and> k < snd dst + n
        then slot_at (fst src, snd src + (k - snd dst)) w else slot_at (a, k) w)"
  unfolding MOVE_OR_COPY_IF_NOEXCEPT_def uninitialized_move_n_def uninitialized_copy_n_def
  by (auto simp: uninitialized_move_from_slot uninitialized_copy_from_slot split: if_splits)

lemma MOVE_OR_COPY_counters:
  "MOVE_OR_COPY_IF_NOEXCEPT T src dst n w = (Inr u, w') \<Longrightarrow>
     (if move_ctor T \<and> (nothrow_move T \<or> \<not> copy_constructible T)
      then move_ctors w' = move_ctors w + n \<and> copy_ctors w' = copy_ctors w
      else copy_ctors w' = copy_ctors w + n \<and> move_ctors w' = move_ctors w)"
  unfolding MOVE_OR_COPY_IF_NOEXCEPT_def uninitialized_move_n_def uninitialized_copy_n_def
  by (auto dest: uninitialized_move_from_counters uninitialized_copy_from_counters split: if_splits)

lemma MOVE_OR_COPY_succeeds:
  assumes "fuse w = None \<or> nothrow_move T" "fst src \<noteq> fst dst"
    and "\<And>j. j < n \<Longrightarrow> live_value (ptr_add src j) w \<noteq> None \<and> slot_at (ptr_add dst j) w \<noteq> None"
  shows "\<exists>w'. MOVE_OR_COPY_IF_NOEXCEPT T src dst n w = (Inr (), w') \<and> fuse w' = fuse w"
proof (cases "nothrow_move T \<or> \<not> copy_constructible T")
  case True
  have "\<exists>w'. uninitialized_move_from T src dst 0 n w = (Inr (), w') \<and> fuse w' = fuse w"
    by (rule uninitialized_move_from_succeeds) (use assms in auto)
  with True show ?thesis
    by (simp add: MOVE_OR_COPY_IF_NOEXCEPT_def uninitialized_move_n_def)
next
  case False
  with assms(1) have f: "fuse w = None" by simp
  have "\<exists>w'. uninitialized_copy_from T src dst 0 n w = (Inr (), w') \<and> fuse w' = None"
    by (rule uninitialized_copy_from_succeeds) (use assms f in auto)
  with False f show ?thesis
    by (simp add: MOVE_OR_COPY_IF_NOEXCEPT_def uninitialized_copy_n_def)
qed

lemma MOVE_OR_COPY_fails:
  assumes "MOVE_OR_COPY_IF_NOEXCEPT T src dst n w = (Inl e, w')"
    and "nothrow_move T \<or> copy_constructible T" "fst src \<noteq> fst dst"
    and "\<And>j. j < n \<Longrightarrow> live_value (ptr_add src j) w \<noteq> None \<and> slot_at (ptr_add dst j) w \<noteq> None"
  shows "step_ok (set_option (fst dst)) w w'
     \<and> (\<exists>m. \<forall>a k. slot_at (a, k) w' =
       (if a = fst dst \<and> snd dst \<le> k \<and> k < snd dst + m
        then map_option (\<lambda>s. None) (slot_at (a, k) w) else slot_at (a, k) w))"
proof (cases "nothrow_move T")
  case True
  then have "\<exists>w'. MOVE_OR_COPY_IF_NOEXCEPT T src dst n w = (Inr (), w') \<and> fuse w' = fuse w"
    using assms(3,4) by (intro MOVE_OR_COPY_succeeds) auto
  with assms(1) show ?thesis by auto
next
  case False
  with assms(1,2) have c: "uninitialized_copy_from T src dst 0 n w = (Inl e, w')"
    by (simp add: MOVE_OR_COPY_IF_NOEXCEPT_def uninitialized_copy_n_def)
  from uninitialized_copy_from_fails [OF c] uninitialized_copy_from_step [OF c]
  show ?thesis by blast
qed

lemma step_ok_next: "step_ok S w w' \<Longrightarrow> next_block w' = next_block w"
  by (simp add: step_ok_def)

lemma step_ok_lost: "step_ok S w w' \<Longrightarrow> lost w' = lost w"
  by (simp add: step_ok_def)

lemma step_ok_shape: "step_ok S w w' \<Longrightarrow> map_option length (heap w' b) = map_option length (heap w b)"
  by (simp add: step_ok_def)

lemma step_ok_heap_None: "step_ok S w w' \<Longrightarrow> (heap w' b = None) = (heap w b = None)"
  using step_ok_shape [of S w w' b] by (cases "heap w' b"; cases "heap w b") auto

lemma step_ok_frame: "step_ok S w w' \<Longrightarrow> b \<notin> S \<Longrightarrow> heap w' b = heap w b"
  by (simp add: step_ok_def)

lemma step_ok_fresh: "step_ok S w w' \<Longrightarrow> fresh w \<Longrightarrow> fresh w'"
  by (simp add: fresh_def step_ok_heap_None step_ok_next)

lemma valid_buffer_below: "valid v w \<Longrightarrow> fresh w \<Longrightarrow> m_buffer (m_data v) = Some a \<Longrightarrow> a < next_block w"
  by (rule ccontr) (auto simp: valid_def fresh_def split: option.splits)

lemma valid_live: "valid v w \<Longrightarrow> k < m_size v \<Longrightarrow> live_value (m_buffer (m_data v), k) w \<noteq> None"
  by (cases "m_buffer (m_data v)") (auto simp: valid_iff)

lemma valid_not_live: "valid v w \<Longrightarrow> m_size v \<le> k \<Longrightarrow> live_value (m_buffer (m_data v), k) w = None"
proof (cases "m_buffer (m_data v)")
  case None
  then show ?thesis by (simp add: live_value_def slot_at_def)
next
  case (Some a)
  assume "valid v w" "m_size v \<le> k"
  then show ?thesis
    using Some
    by (cases "k < m_capacity (m_data v)")
       (auto simp: valid_iff live_value_def slot_at_def split: option.splits)
qed

lemma valid_raw: "valid v w \<Longrightarrow> m_size v \<le> k \<Longrightarrow> k < m_capacity (m_data v) \<Longrightarrow>
    slot_at (m_buffer (m_data v), k) w = Some None"
  by (cases "m_buffer (m_data v)") (auto simp: valid_iff)

lemma contents_eq:
  "m_size v' = m_size v \<Longrightarrow>
   (\<And>k. k < m_size v \<Longrightarrow> slot_at (m_buffer (m_data v'), k) w' = slot_at (m_buffer (m_data v), k) w) \<Longrightarrow>
   contents v' w' = contents v w"
  by (simp add: contents_def live_value_def vec_begin_def GetAddress_def ptr_add_def)

lemma contents_heap:
  "(\<And>b. m_buffer (m_data v) = Some b \<Longrightarrow> heap w' b = heap w b) \<Longrightarrow> contents v w' = contents v w"
  by (cases "m_buffer (m_data v)")
     (simp_all add: contents_def live_value_def slot_at_def vec_begin_def GetAddress_def ptr_add_def)

lemma heap_Deallocate_at: "heap (Deallocate buf w) a = (if buf = Some a then None else heap w a)"
  by (auto simp: heap_Deallocate split: option.splits)

lemma destroy_at_fields [simp]:
  "copy_ctors (destroy_at p w) = copy_ctors w"
  "move_ctors (destroy_at p w) = move_ctors w"
  "value_ctors (destroy_at p w) = value_ctors w"
  "fuse (destroy_at p w) = fuse w"
  by (simp_all add: destroy_at_def split: option.splits)

lemma destroy_n_fields [simp]:
  "copy_ctors (destroy_n p n w) = copy_ctors w"
  "move_ctors (destroy_n p n w) = move_ctors w"
  "value_ctors (destroy_n p n w) = value_ctors w"
  "fuse (destroy_n p n w) = fuse w"
  by (induction n arbitrary: p w) simp_all

lemma Reserve_noop:
  "n \<le> m_capacity (m_data v) \<Longrightarrow> Reserve T n v w = (Inr (), v, w)"
  by (simp add: Reserve_def)

lemma Reserve_success:
  assumes cap: "m_capacity (m_data v) < n" and fit: "fits T n" and ok: "valid v w" and fr: "fresh w"
    and res: "Reserve T n v w = (Inr u, v', w')"
  shows "m_data v' = \<lparr>m_buffer = Some (next_block w), m_capacity = n\<rparr> \<and> m_size v' = m_size v
    \<and> contents v' w' = contents v w \<and> valid v' w' \<and> fresh w' \<and> lost w' = lost w
    \<and> (if move_ctor T \<and> (nothrow_move T \<or> \<not> copy_constructible T)
        then move_ctors w' = move_ctors w + m_size v \<and> copy_ctors w' = copy_ctors w
        else copy_ctors w' = copy_ctors w + m_size v \<and> move_ctors w' = move_ctors w)"
proof -
  let ?b = "m_buffer (m_data v)" and ?nb = "next_block w" and ?s = "m_size v"
  let ?w3 = "\<lambda>w2. destroy_n (?b, 0) ?s w2"
  from cap have n0: "n \<noteq> 0" by simp
  from res cap obtain nd w1 u2 w2 where
    ctor: "RawMemory_ctor T n w = (Inr nd, w1)" and
    mc: "MOVE_OR_COPY_IF_NOEXCEPT T (?b, 0) (m_buffer nd, 0) ?s w1 = (Inr u2, w2)" and
    v': "v' = v\<lparr>m_data := \<lparr>m_buffer = m_buffer nd, m_capacity = m_capacity nd\<rparr>\<rparr>" and
    w': "w' = Deallocate ?b (?w3 w2)"
    by (auto simp: Reserve_def Let_def RawMemory_Swap_def RawMemory_dtor_def GetAddress_def
        split: prod.splits sum.splits if_splits)
  note c = RawMemory_ctor_Inr [OF ctor n0 fit]
  from c have nd: "nd = \<lparr>m_buffer = Some ?nb, m_capacity = n\<rparr>" by simp
  have bnb: "?b \<noteq> Some ?nb"
    using valid_buffer_below [OF ok fr] by auto
  have sz: "?s \<le> m_capacity (m_data v)" using ok by (simp add: valid_def)
  have s1: "\<And>a k. slot_at (a, k) w1 = (if a = Some ?nb then (if k < n then Some None else None) else slot_at (a, k) w)"
    using c by (intro slot_at_alloc) simp
  have st2: "step_ok (set_option (Some ?nb) \<union> set_option ?b) w1 w2"
    using MOVE_OR_COPY_step [OF mc] by (simp add: nd)
  have st3: "step_ok (set_option (Some ?nb) \<union> set_option ?b) w2 (?w3 w2)"
    by (rule step_ok_mono [OF destroy_n_step]) auto
  note st13 = step_ok_trans [OF st2 st3]
  have s2: "slot_at (a, k) w2 = (if a = Some ?nb \<and> k < ?s then slot_at (?b, k) w1 else slot_at (a, k) w1)"
    if "a \<noteq> ?b \<or> ?s \<le> k" for a k
    using MOVE_OR_COPY_slot [OF mc, of a k] that bnb by (auto simp: nd)
  have new: "slot_at (Some ?nb, k) w' = (if k < ?s then slot_at (?b, k) w else if k < n then Some None else None)" for k
    using bnb sz cap by (auto simp: w' slot_at_Deallocate destroy_n_slot s2 s1)
  have cont: "contents v' w' = contents v w"
    by (rule contents_eq) (simp_all add: v' nd new)
  have shape: "map_option length (heap w' ?nb) = Some n"
  proof -
    have "heap w' ?nb = heap (?w3 w2) ?nb"
      using bnb by (simp add: w' heap_Deallocate_at)
    then show ?thesis using step_ok_shape [OF st13, of ?nb] c by simp
  qed
  have ok': "valid v' w'"
    unfolding valid_iff using sz cap n0 shape valid_live [OF ok]
    by (auto simp: v' nd new live_value_def)
  have fr': "fresh w'"
    unfolding fresh_def
  proof (intro allI impI)
    fix a assume a: "next_block w' \<le> a"
    have nx: "next_block w' = Suc ?nb"
      using step_ok_next [OF st13] c by (simp add: w')
    with a have "heap w1 a = None" using c fr by (simp add: fresh_def)
    then have "heap (?w3 w2) a = None" using step_ok_heap_None [OF st13] by simp
    then show "heap w' a = None" by (simp add: w' heap_Deallocate_at)
  qed
  have "live_value (?b, k) (?w3 w2) = None" for k
  proof (cases "k < ?s")
    case True
    then show ?thesis by (auto simp: live_value_def destroy_n_slot split: option.splits)
  next
    case False
    then have "slot_at (?b, k) (?w3 w2) = slot_at (?b, k) w"
      using bnb by (simp add: destroy_n_slot s2 s1)
    with valid_not_live [OF ok, of k] False show ?thesis by (simp add: live_value_def)
  qed
  then have "lost w' = lost (?w3 w2)" unfolding w' by (rule lost_Deallocate)
  then have lost: "lost w' = lost w" using step_ok_lost [OF st13] c by simp
  have cnt: "(if move_ctor T \<and> (nothrow_move T \<or> \<not> copy_constructible T)
        then move_ctors w' = move_ctors w + m_size v \<and> copy_ctors w' = copy_ctors w
        else copy_ctors w' = copy_ctors w + m_size v \<and> move_ctors w' = move_ctors w)"
    using MOVE_OR_COPY_counters [OF mc] c by (simp add: w')
  show ?thesis using cont ok' fr' lost cnt by (simp add: v' nd)
qed

lemma Reserve_succeeds:
  assumes cap: "m_capacity (m_data v) < n" and fit: "fits T n" and ok: "valid v w" and fr: "fresh w"
    and f: "fuse w = None"
  shows "\<exists>v' w'. Reserve T n v w = (Inr (), v', w')"
proof -
  let ?b = "m_buffer (m_data v)" and ?nb = "next_block w" and ?s = "m_size v"
  from cap have n0: "n \<noteq> 0" by simp
  from RawMemory_ctor_succeeds [OF f] obtain nd w1
    where ctor: "RawMemory_ctor T n w = (Inr nd, w1)" and f1: "fuse w1 = None" by blast
  note c = RawMemory_ctor_Inr [OF ctor n0 fit]
  from c have nd: "nd = \<lparr>m_buffer = Some ?nb, m_capacity = n\<rparr>" by simp
  have bnb: "?b \<noteq> Some ?nb"
    using valid_buffer_below [OF ok fr] by auto
  have sz: "?s \<le> m_capacity (m_data v)" using ok by (simp add: valid_def)
  have s1: "\<And>a k. slot_at (a, k) w1 = (if a = Some ?nb then (if k < n then Some None else None) else slot_at (a, k) w)"
    using c by (intro slot_at_alloc) simp
  have "\<exists>w2. MOVE_OR_COPY_IF_NOEXCEPT T (?b, 0) (Some ?nb, 0) ?s w1 = (Inr (), w2) \<and> fuse w2 = fuse w1"
  proof (rule MOVE_OR_COPY_succeeds)
    show "fuse w1 = None \<or> nothrow_move T" using f1 by simp
    show "fst (?b, 0::nat) \<noteq> fst (Some ?nb, 0::nat)" using bnb by simp
    fix j assume "j < ?s"
    then show "live_value (ptr_add (?b, 0) j) w1 \<noteq> None \<and> slot_at (ptr_add (Some ?nb, 0) j) w1 \<noteq> None"
      using valid_live [OF ok, of j] bnb sz cap by (simp add: ptr_add_def live_value_def s1)
  qed
  then obtain w2 where "MOVE_OR_COPY_IF_NOEXCEPT T (?b, 0) (Some ?nb, 0) ?s w1 = (Inr (), w2)" by blast
  then show ?thesis
    using cap ctor
    by (simp add: Reserve_def Let_def GetAddress_def nd RawMemory_Swap_def)
qed

lemma Reserve_strong:
  assumes cap: "m_capacity (m_data v) < n" and fit: "fits T n" and ok: "valid v w" and fr: "fresh w"
    and T: "nothrow_move T \<or> copy_constructible T"
    and res: "Reserve T n v w = (Inl e, v', w')"
  shows "v' = v \<and> heap w' = heap w \<and> lost w' = lost w"
proof -
  let ?b = "m_buffer (m_data v)" and ?nb = "next_block w" and ?s = "m_size v"
  from cap have n0: "n \<noteq> 0" by simp
  obtain r1 w1 where ctor: "RawMemory_ctor T n w = (r1, w1)" by force
  show ?thesis
  proof (cases r1)
    case (Inl e1)
    with res cap ctor have "v' = v \<and> w' = w1" by (simp add: Reserve_def)
    with RawMemory_ctor_Inl [of T n w e1 w1] ctor Inl show ?thesis by simp
  next
    case (Inr nd)
    with ctor have ctor: "RawMemory_ctor T n w = (Inr nd, w1)" by simp
    note c = RawMemory_ctor_Inr [OF ctor n0 fit]
    from c have nd: "nd = \<lparr>m_buffer = Some ?nb, m_capacity = n\<rparr>" by simp
    from res cap ctor obtain w2 where
      mc: "MOVE_OR_COPY_IF_NOEXCEPT T (?b, 0) (Some ?nb, 0) ?s w1 = (Inl e, w2)" and
      v': "v' = v" and w': "w' = Deallocate (Some ?nb) w2"
      by (auto simp: Reserve_def Let_def RawMemory_dtor_def GetAddress_def nd
          split: prod.splits sum.splits)
    have bnb: "?b \<noteq> Some ?nb"
      using valid_buffer_below [OF ok fr] by auto
    have sz: "?s \<le> m_capacity (m_data v)" using ok by (simp add: valid_def)
    have s1: "\<And>a k. slot_at (a, k) w1 = (if a = Some ?nb then (if k < n then Some None else None) else slot_at (a, k) w)"
      using c by (intro slot_at_alloc) simp
    have "step_ok (set_option (fst (Some ?nb, 0::nat))) w1 w2
     \<and> (\<exists>m. \<forall>a k. slot_at (a, k) w2 =
       (if a = fst (Some ?nb, 0::nat) \<and> snd (Some ?nb, 0::nat) \<le> k \<and> k < snd (Some ?nb, 0::nat) + m
        then map_option (\<lambda>s. None) (slot_at (a, k) w1) else slot_at (a, k) w1))"
    proof (rule MOVE_OR_COPY_fails [OF mc T])
      show "fst (?b, 0::nat) \<noteq> fst (Some ?nb, 0::nat)" using bnb by simp
      fix j assume "j < ?s"
      then show "live_value (ptr_add (?b, 0) j) w1 \<noteq> None \<and> slot_at (ptr_add (Some ?nb, 0) j) w1 \<noteq> None"
        using valid_live [OF ok, of j] bnb sz cap by (simp add: ptr_add_def live_value_def s1)
    qed
    then obtain m where st: "step_ok {?nb} w1 w2"
      and s2: "\<And>a k. slot_at (a, k) w2 =
       (if a = Some ?nb \<and> k < m then map_option (\<lambda>s. None) (slot_at (a, k) w1) else slot_at (a, k) w1)"
      by auto
    have "heap w' a = heap w a" for a
    proof (cases "a = ?nb")
      case True
      then show ?thesis using fr by (simp add: w' heap_Deallocate_at fresh_def)
    next
      case False
      then show ?thesis using step_ok_frame [OF st, of a] c by (simp add: w' heap_Deallocate_at)
    qed
    then have h: "heap w' = heap w" by (rule ext)
    have "live_value (Some ?nb, k) w2 = None" for k
      by (simp add: live_value_def s2 s1)
    then have "lost w' = lost w2" unfolding w' by (rule lost_Deallocate)
    then have "lost w' = lost w" using step_ok_lost [OF st] c by simp
    with h v' show ?thesis by simp
  qed
qed

lemma construct_at_ext_slot:
  "construct_at T dst a w = (Inr u, w') \<Longrightarrow> ext_value a = Some x \<Longrightarrow>
     slot_at p w' = (if p = dst then Some (Some x) else slot_at p w)"
  by (induction T dst a w rule: construct_at.induct)
     (auto simp: tick_case slot_at_write split: if_splits)

lemma construct_at_ext_succeeds:
  "fuse w = None \<Longrightarrow> slot_at dst w \<noteq> None \<Longrightarrow> ext_value a = Some x \<Longrightarrow>
     \<exists>w'. construct_at T dst a w = (Inr (), w') \<and> fuse w' = None"
  by (induction T dst a w rule: construct_at.induct)
     (auto simp: tick_no_fuse)

lemma construct_at_counters:
  "construct_at T dst a w = (Inr u, w') \<Longrightarrow>
     copy_ctors w' = copy_ctors w + arg_copies T a \<and> move_ctors w' = move_ctors w + arg_moves T a"
  by (induction T dst a w rule: construct_at.induct)
     (auto simp: tick_case dest: construct_copy_Inr construct_move_Inr split: if_splits)

lemma ext_value_arg_block: "ext_value a = Some x \<Longrightarrow> arg_block a = {}"
  by (induction a rule: ext_value.induct) auto

lemma EmplaceBack_spare:
  assumes ok: "valid v w" and fr: "fresh w" and f: "fuse w = None"
    and a: "ext_value a = Some x" and sp: "m_size v < m_capacity (m_data v)"
  shows "\<exists>w'. EmplaceBack T a v w = (Inr (m_buffer (m_data v), m_size v), v\<lparr>m_size := Suc (m_size v)\<rparr>, w')
     \<and> valid (v\<lparr>m_size := Suc (m_size v)\<rparr>) w' \<and> fresh w' \<and> fuse w' = None
     \<and> contents (v\<lparr>m_size := Suc (m_size v)\<rparr>) w' = contents v w @ [Some x]"
proof -
  let ?b = "m_buffer (m_data v)" and ?s = "m_size v"
  have raw: "slot_at (?b, ?s) w = Some None"
    using valid_raw [OF ok _ sp] by simp
  with construct_at_ext_succeeds [OF f _ a, of "(?b, ?s)" T] obtain w'
    where c: "construct_at T (?b, ?s) a w = (Inr (), w')" and f': "fuse w' = None"
    by auto
  note sl = construct_at_ext_slot [OF c a]
  have st: "step_ok (set_option ?b) w w'"
    using construct_at_step [OF c] by (simp add: ext_value_arg_block [OF a])
  have e: "EmplaceBack T a v w = (Inr (?b, ?s), v\<lparr>m_size := Suc ?s\<rparr>, w')"
    using sp c by (simp add: EmplaceBack_def Emplace_def Let_def vec_end_def vec_begin_def GetAddress_def ptr_add_def)
  obtain b where b: "?b = Some b"
    using raw by (cases ?b) (auto simp: slot_at_def)
  have ok': "valid (v\<lparr>m_size := Suc ?s\<rparr>) w'"
    using ok sp step_ok_shape [OF st, of b] unfolding valid_iff
    by (auto simp: b live_value_def sl less_Suc_eq)
  have "contents (v\<lparr>m_size := Suc ?s\<rparr>) w' = contents v w @ [Some x]"
    by (simp add: contents_def vec_begin_def GetAddress_def ptr_add_def live_value_def sl)
  with e ok' f' step_ok_fresh [OF st fr] show ?thesis by blast
qed

lemma MOVE_OR_COPY_0 [simp]: "MOVE_OR_COPY_IF_NOEXCEPT T src dst 0 w = (Inr (), w)"
  by (simp add: MOVE_OR_COPY_IF_NOEXCEPT_def uninitialized_move_n_def uninitialized_copy_n_def)

lemma EmplaceBack_full:
  assumes ok: "valid v w" and fr: "fresh w" and f: "fuse w = None"
    and a: "ext_value a = Some x" and full: "\<not> m_size v < m_capacity (m_data v)"
    and fit2: "fits T (max 1 (2 * m_capacity (m_data v)))"
  shows "\<exists>v' w'. EmplaceBack T a v w = (Inr (Some (next_block w), m_size v), v', w')
     \<and> m_data v' = \<lparr>m_buffer = Some (next_block w), m_capacity = max 1 (2 * m_capacity (m_data v))\<rparr>
     \<and> m_size v' = Suc (m_size v)
     \<and> valid v' w' \<and> fresh w' \<and> fuse w' = None
     \<and> contents v' w' = contents v w @ [Some x]"
proof -
  let ?b = "m_buffer (m_data v)" and ?nb = "next_block w" and ?s = "m_size v"
  let ?n = "if ?s = 0 then 1 else 2 * ?s"
  let ?w5 = "\<lambda>w3. destroy_n (?b, 0) ?s w3"
  have sz: "?s = m_capacity (m_data v)" using ok full by (simp add: valid_def)
  have n0: "?n \<noteq> 0" by simp
  have sn: "?s < ?n" by simp
  have nm: "?n = max 1 (2 * m_capacity (m_data v))" using sz by (auto simp: max_def)
  with fit2 have fit: "fits T ?n" by simp
  have wrap: "(if ?s = 0 then 1 else (2 * ?s) mod size_t_range) = ?n"
    using fits_double [of T ?s] fit by (auto split: if_splits)
  from RawMemory_ctor_succeeds [OF f] obtain nd w1
    where ctor: "RawMemory_ctor T ?n w = (Inr nd, w1)" and f1: "fuse w1 = None" by blast
  note c = RawMemory_ctor_Inr [OF ctor n0 fit]
  from c have nd: "nd = \<lparr>m_buffer = Some ?nb, m_capacity = ?n\<rparr>" by simp
  have bnb: "?b \<noteq> Some ?nb"
    using valid_buffer_below [OF ok fr] by auto
  have s1: "\<And>a k. slot_at (a, k) w1 = (if a = Some ?nb then (if k < ?n then Some None else None) else slot_at (a, k) w)"
    using c by (intro slot_at_alloc) simp
  have "\<exists>w2. MOVE_OR_COPY_IF_NOEXCEPT T (?b, 0) (Some ?nb, 0) ?s w1 = (Inr (), w2) \<and> fuse w2 = fuse w1"
  proof (rule MOVE_OR_COPY_succeeds)
    show "fuse w1 = None \<or> nothrow_move T" using f1 by simp
    show "fst (?b, 0::nat) \<noteq> fst (Some ?nb, 0::nat)" using bnb by simp
    fix j assume "j < ?s"
    then show "live_value (ptr_add (?b, 0) j) w1 \<noteq> None \<and> slot_at (ptr_add (Some ?nb, 0) j) w1 \<noteq> None"
      using valid_live [OF ok, of j] bnb by (simp add: ptr_add_def live_value_def s1)
  qed
  then obtain w2 where mc: "MOVE_OR_COPY_IF_NOEXCEPT T (?b, 0) (Some ?nb, 0) ?s w1 = (Inr (), w2)"
    and f2: "fuse w2 = None" using f1 by auto
  have s2: "slot_at (a, k) w2 = (if a = Some ?nb \<and> k < ?s then slot_at (?b, k) w1 else slot_at (a, k) w1)"
    if "a \<noteq> ?b \<or> ?s \<le> k" for a k
    using MOVE_OR_COPY_slot [OF mc, of a k] that bnb by auto
  have "slot_at (Some ?nb, ?s) w2 \<noteq> None"
    using bnb sn by (simp add: s2 s1 del: One_nat_def)
  with construct_at_ext_succeeds [OF f2 _ a, of "(Some ?nb, ?s)" T] obtain w3
    where ca: "construct_at T (Some ?nb, ?s) a w2 = (Inr (), w3)" and f3: "fuse w3 = None"
    by auto
  note s3 = construct_at_ext_slot [OF ca a]
  define v' where "v' = v\<lparr>m_data := \<lparr>m_buffer = Some ?nb, m_capacity = ?n\<rparr>, m_size := Suc ?s\<rparr>"
  define w' where "w' = Deallocate ?b (?w5 w3)"
  have e: "EmplaceBack T a v w = (Inr (Some ?nb, ?s), v', w')"
    using full ctor mc ca
    by (simp add: EmplaceBack_def Emplace_def Let_def vec_end_def vec_begin_def GetAddress_def
        ptr_add_def nd RawMemory_Swap_def RawMemory_dtor_def v'_def w'_def wrap del: One_nat_def)
  have st2: "step_ok (insert ?nb (set_option ?b)) w1 w2"
    using MOVE_OR_COPY_step [OF mc] by simp
  have st3: "step_ok (insert ?nb (set_option ?b)) w2 w3"
    using construct_at_step [OF ca] by (simp add: ext_value_arg_block [OF a] step_ok_mono)
  have st5: "step_ok (insert ?nb (set_option ?b)) w3 (?w5 w3)"
    by (rule step_ok_mono [OF destroy_n_step]) auto
  note st15 = step_ok_trans [OF step_ok_trans [OF st2 st3] st5]
  have new: "slot_at (Some ?nb, k) w' =
      (if k < ?s then slot_at (?b, k) w else if k = ?s then Some (Some x)
       else if k < ?n then Some None else None)" for k
    using bnb sn by (auto simp: w'_def slot_at_Deallocate destroy_n_slot s3 s2 s1 simp del: One_nat_def)
  have cont: "contents v' w' = contents v w @ [Some x]"
    by (simp add: contents_def vec_begin_def GetAddress_def ptr_add_def live_value_def v'_def new
        del: One_nat_def)
  have shape: "map_option length (heap w' ?nb) = Some ?n"
  proof -
    have "heap w' ?nb = heap (?w5 w3) ?nb"
      using bnb by (simp add: w'_def heap_Deallocate_at)
    then show ?thesis using step_ok_shape [OF st15, of ?nb] c by simp
  qed
  have ok': "valid v' w'"
    unfolding valid_iff using sn shape valid_live [OF ok]
    by (auto simp: v'_def new live_value_def less_Suc_eq simp del: One_nat_def)
  have fr': "fresh w'"
    unfolding fresh_def
  proof (intro allI impI)
    fix a assume a: "next_block w' \<le> a"
    have nx: "next_block w' = Suc ?nb"
      using step_ok_next [OF st15] c by (simp add: w'_def)
    with a have "heap w1 a = None" using c fr by (simp add: fresh_def)
    then have "heap (?w5 w3) a = None" using step_ok_heap_None [OF st15] by simp
    then show "heap w' a = None" by (simp add: w'_def heap_Deallocate_at)
  qed
  have cap: "m_data v' = \<lparr>m_buffer = Some ?nb, m_capacity = max 1 (2 * m_capacity (m_data v))\<rparr>"
    using sz by (auto simp: v'_def max_def)
  have "fuse w' = None" using f3 by (simp add: w'_def)
  with e cap cont ok' fr' show ?thesis by (auto simp: v'_def)
qed

subsection \<open>Self-assignment\<close>

text \<open>
  Claim C9. Assigning a vector to itself, by copy or by move, is the identity: the assignment
  does not fail, the vector object (size and capacity) and the whole world (element values,
  constructor and destructor counters) are returned as they were.
\<close>

theorem self_assignment_identity:
  "Vector_copy_assign T this this objs w = (Inr (), objs, w)
   \<and> Vector_move_assign this this objs w = (objs, w)"
  by (simp add: Vector_copy_assign_def Vector_move_assign_def)

theorem self_assignment_identity_witness:
  "Vector_copy_assign string_type 0 0 ((\<lambda>a. Vector_default)(0 := vec (Some 0) 2 2))
       (world_of ((\<lambda>a. None)(0 := Some [Some ''a'', Some ''b''])) 1 (Some 0))
     = (Inr (), (\<lambda>a. Vector_default)(0 := vec (Some 0) 2 2),
        world_of ((\<lambda>a. None)(0 := Some [Some ''a'', Some ''b''])) 1 (Some 0))
   \<and> Vector_move_assign 0 0 ((\<lambda>a. Vector_default)(0 := vec (Some 0) 2 2))
       (world_of ((\<lambda>a. None)(0 := Some [Some ''a'', Some ''b''])) 1 (Some 0))
     = ((\<lambda>a. Vector_default)(0 := vec (Some 0) 2 2),
        world_of ((\<lambda>a. None)(0 := Some [Some ''a'', Some ''b''])) 1 (Some 0))"
  using self_assignment_identity [of string_type 0 "(\<lambda>a. Vector_default)(0 := vec (Some 0) 2 2)"
      "world_of ((\<lambda>a. None)(0 := Some [Some ''a'', Some ''b''])) 1 (Some 0)"]
  by simp

subsection \<open>Failure paths that lose objects\<close>

text \<open>
  Claim C1, evaluated where it fails. A vector of strings holds \<open>''a''\<close> and \<open>''b''\<close> in a
  full block of capacity 2. \<^verbatim>\<open>PushBack\<close> allocates the new block, moves both elements
  into it, and the constructor of the new element throws. The exception leaves
  \<^verbatim>\<open>Emplace\<close> through the destructor of \<^verbatim>\<open>new_data\<close> only: the new block is released
  with the two relocated objects still constructed in it (two move constructions, no
  destructor call, two objects lost), and the vector keeps two moved-from strings.
\<close>

theorem pushback_throw_loses_relocated_prefix:
  "(case PushBack string_type (ConstRef (Ext ''c'')) (vec (Some 0) 2 2)
           (world_of ((\<lambda>a. None)(0 := Some [Some ''a'', Some ''b''])) 1 (Some 1)) of
      (r, v', w') \<Rightarrow> r = Inl ElemThrow \<and> v' = vec (Some 0) 2 2
        \<and> move_ctors w' = 2 \<and> dtors w' = 0 \<and> lost w' = 2 \<and> heap w' 1 = None
        \<and> contents v' w' = [Some '''', Some ''''])"
  by code_simp

text \<open>
  Claim C2, evaluated where it fails. The vector at address 0 holds \<open>''a''\<close> and \<open>''b''\<close>,
  the vector at address 1 holds \<open>''c''\<close>. Move assignment of the second to the first hands
  the block over and empties the source, but \<^verbatim>\<open>RawMemory::operator=\<close> releases the old
  block of the destination without any destructor call: its two elements are lost.
\<close>

theorem move_assign_skips_destructors:
  "(case Vector_move_assign 0 1
           ((\<lambda>a. Vector_default)(0 := vec (Some 0) 2 2, 1 := vec (Some 1) 1 1))
           (world_of ((\<lambda>a. None)(0 := Some [Some ''a'', Some ''b''], 1 := Some [Some ''c''])) 2 None) of
      (objs', w') \<Rightarrow> objs' 0 = vec (Some 1) 1 1 \<and> objs' 1 = vec None 0 0
        \<and> contents (objs' 0) w' = [Some ''c'']
        \<and> heap w' 0 = None \<and> dtors w' = 0 \<and> lost w' = 2)"
  by code_simp

subsection \<open>Insertion of an element of the vector itself\<close>

text \<open>
  Claim C5, evaluated where it fails. The vector of strings \<open>[''a'', ''b'']\<close> is full, and
  \<^verbatim>\<open>Insert(begin() + 1, v[0])\<close> passes a reference to its first element. The reallocating
  path moves the prefix \<open>[''a'']\<close> into the new block first and copies the new element from
  the moved-from \<^verbatim>\<open>v[0]\<close> afterwards: the result is \<open>[''a'', '''', ''b'']\<close>, not
  \<open>[''a'', ''a'', ''b'']\<close>.
\<close>

theorem insert_of_own_element_when_full:
  "(case Insert string_type (Some 0, 1) (ConstRef (At (Some 0, 0))) (vec (Some 0) 2 2)
           (world_of ((\<lambda>a. None)(0 := Some [Some ''a'', Some ''b''])) 1 None) of
      (r, v', w') \<Rightarrow> r = Inr (Some 1, 1) \<and> v' = vec (Some 1) 4 3
        \<and> contents v' w' = [Some ''a'', Some '''', Some ''b''])"
  by code_simp

subsection \<open>The state invariant on a failure path\<close>

text \<open>
  Claim C8, evaluated where it fails. The element type has copy operations only. The vector
  \<open>[1, 2]\<close> has capacity 4 and satisfies the invariant. \<^verbatim>\<open>Emplace(begin(), 9)\<close> builds
  the temporary, constructs a new last element in slot 2, and the first assignment of
  \<^verbatim>\<open>std::move_backward\<close> throws. \<^verbatim>\<open>size_\<close> is still 2, while slot 2 holds an object:
  the invariant is broken.
\<close>

theorem emplace_throw_breaks_invariant:
  "valid (vec (Some 0) 4 2) (world_of ((\<lambda>a. None)(0 := Some [Some 1, Some 2, None, None])) 1 (Some 2))
   \<and> (case Emplace copy_only_type (Some 0, 0) (ConstRef (Ext 9)) (vec (Some 0) 4 2)
           (world_of ((\<lambda>a. None)(0 := Some [Some 1, Some 2, None, None])) 1 (Some 2)) of
      (r, v', w') \<Rightarrow> r = Inl ElemThrow \<and> v' = vec (Some 0) 4 2
        \<and> heap w' 0 = Some [Some 1, Some 2, Some 2, None] \<and> \<not> valid v' w')"
  by code_simp

subsection \<open>Reserve\<close>

text \<open>failure of the moving loop: everything it constructed is destroyed again\<close>

lemma uninitialized_move_from_fails:
  "uninitialized_move_from T src dst i n w = (Inl e, w') \<Longrightarrow> fst src \<noteq> fst dst \<Longrightarrow>
     \<exists>m\<ge>i. \<forall>a k. slot_at (a, k) w' =
       (if a = fst dst \<and> snd dst \<le> k \<and> k < snd dst + m
        then map_option (\<lambda>s. None) (slot_at (a, k) w)
        else if a = fst src \<and> snd src + i \<le> k \<and> k < snd src + m
        then map_option (map_option (moved_out T)) (slot_at (a, k) w)
        else slot_at (a, k) w)"
proof (induction n arbitrary: i w)
  case 0
  then show ?case by simp
next
  case (Suc n)
  obtain r1 w1 where c: "construct_move T (ptr_add dst i) (ptr_add src i) w = (r1, w1)"
    by force
  show ?case
  proof (cases r1)
    case (Inl e1)
    with Suc.prems c have w': "w' = destroy_n dst i w1" by simp
    from c Inl have "heap w1 = heap w"
      by (auto simp: construct_move_def tick_case split: option.splits if_splits)
    then have "\<And>p. slot_at p w1 = slot_at p w" by (rule slot_at_heap)
    then have "\<forall>a k. slot_at (a, k) w' =
       (if a = fst dst \<and> snd dst \<le> k \<and> k < snd dst + i
        then map_option (\<lambda>s. None) (slot_at (a, k) w)
        else if a = fst src \<and> snd src + i \<le> k \<and> k < snd src + i
        then map_option (map_option (moved_out T)) (slot_at (a, k) w)
        else slot_at (a, k) w)"
      by (auto simp: w' destroy_n_slot)
    then show ?thesis by blast
  next
    case (Inr u1)
    with Suc.prems c have r: "uninitialized_move_from T src dst (Suc i) n w1 = (Inl e, w')" by simp
    from Suc.IH [OF r Suc.prems(2)] obtain m where m: "Suc i \<le> m"
      and sl: "\<And>a k. slot_at (a, k) w' =
       (if a = fst dst \<and> snd dst \<le> k \<and> k < snd dst + m
        then map_option (\<lambda>s. None) (slot_at (a, k) w1)
        else if a = fst src \<and> snd src + Suc i \<le> k \<and> k < snd src + m
        then map_option (map_option (moved_out T)) (slot_at (a, k) w1)
        else slot_at (a, k) w1)"
      by blast
    from c Inr have c': "construct_move T (ptr_add dst i) (ptr_add src i) w = (Inr u1, w1)" by simp
    have ne: "ptr_add dst i \<noteq> ptr_add src i"
      using Suc.prems(2) by (auto simp: ptr_add_def)
    have "\<forall>a k. slot_at (a, k) w' =
       (if a = fst dst \<and> snd dst \<le> k \<and> k < snd dst + m
        then map_option (\<lambda>s. None) (slot_at (a, k) w)
        else if a = fst src \<and> snd src + i \<le> k \<and> k < snd src + m
        then map_option (map_option (moved_out T)) (slot_at (a, k) w)
        else slot_at (a, k) w)"
      using m construct_move_Inr [OF c'] Suc.prems(2)
      by (auto simp: sl construct_move_slot [OF c' ne] ptr_add_def prod_eq_iff)
    with m show ?thesis by (intro exI [of _ m]) simp
  qed
qed

text \<open>
  A failed \<^verbatim>\<open>Reserve\<close>, for every element type: the vector object is as before, the new
  block is gone and nothing in it was lost, the other blocks are as before, and each slot of
  the vector's block is as before or holds what a construction from an rvalue leaves behind.
\<close>

lemma Reserve_fails:
  assumes cap: "m_capacity (m_data v) < n" and fit: "fits T n" and ok: "valid v w" and fr: "fresh w"
    and res: "Reserve T n v w = (Inl e, v', w')"
  shows "v' = v \<and> heap w' (next_block w) = None \<and> lost w' = lost w
    \<and> (\<forall>a. m_buffer (m_data v) \<noteq> Some a \<longrightarrow> heap w' a = heap w a)
    \<and> (\<forall>k. slot_at (m_buffer (m_data v), k) w' = slot_at (m_buffer (m_data v), k) w
          \<or> slot_at (m_buffer (m_data v), k) w'
              = map_option (map_option (moved_out T)) (slot_at (m_buffer (m_data v), k) w))"
proof -
  let ?b = "m_buffer (m_data v)" and ?nb = "next_block w" and ?s = "m_size v"
  from cap have n0: "n \<noteq> 0" by simp
  have frn: "heap w ?nb = None" using fr by (simp add: fresh_def)
  obtain r1 w1 where ctor: "RawMemory_ctor T n w = (r1, w1)" by force
  show ?thesis
  proof (cases r1)
    case (Inl e1)
    with res cap ctor have "v' = v \<and> w' = w1" by (simp add: Reserve_def)
    with RawMemory_ctor_Inl [of T n w e1 w1] ctor Inl frn show ?thesis
      by (simp add: slot_at_heap [of w1 w])
  next
    case (Inr nd)
    with ctor have ctor: "RawMemory_ctor T n w = (Inr nd, w1)" by simp
    note c = RawMemory_ctor_Inr [OF ctor n0 fit]
    from c have nd: "nd = \<lparr>m_buffer = Some ?nb, m_capacity = n\<rparr>" by simp
    from res cap ctor obtain w2 where
      mc: "MOVE_OR_COPY_IF_NOEXCEPT T (?b, 0) (Some ?nb, 0) ?s w1 = (Inl e, w2)" and
      v': "v' = v" and w': "w' = Deallocate (Some ?nb) w2"
      by (auto simp: Reserve_def Let_def RawMemory_dtor_def GetAddress_def nd
          split: prod.splits sum.splits)
    have bnb: "?b \<noteq> Some ?nb"
      using valid_buffer_below [OF ok fr] by auto
    have s1: "\<And>a k. slot_at (a, k) w1 = (if a = Some ?nb then (if k < n then Some None else None) else slot_at (a, k) w)"
      using c by (intro slot_at_alloc) simp
    have st: "step_ok (set_option (Some ?nb) \<union> set_option ?b) w1 w2"
      using MOVE_OR_COPY_step [OF mc] by simp
    have "\<exists>m. \<forall>a k. slot_at (a, k) w2 =
       (if a = Some ?nb \<and> k < m then map_option (\<lambda>s. None) (slot_at (a, k) w1)
        else if a = ?b \<and> k < m \<and> (nothrow_move T \<or> \<not> copy_constructible T)
        then map_option (map_option (moved_out T)) (slot_at (a, k) w1)
        else slot_at (a, k) w1)"
    proof (cases "nothrow_move T \<or> \<not> copy_constructible T")
      case True
      with mc have "uninitialized_move_from T (?b, 0) (Some ?nb, 0) 0 ?s w1 = (Inl e, w2)"
        by (simp add: MOVE_OR_COPY_IF_NOEXCEPT_def uninitialized_move_n_def)
      from uninitialized_move_from_fails [OF this] bnb True show ?thesis by auto
    next
      case False
      with mc have "uninitialized_copy_from T (?b, 0) (Some ?nb, 0) 0 ?s w1 = (Inl e, w2)"
        by (simp add: MOVE_OR_COPY_IF_NOEXCEPT_def uninitialized_copy_n_def)
      from uninitialized_copy_from_fails [OF this] False show ?thesis by auto
    qed
    then obtain m where s2: "\<And>a k. slot_at (a, k) w2 =
       (if a = Some ?nb \<and> k < m then map_option (\<lambda>s. None) (slot_at (a, k) w1)
        else if a = ?b \<and> k < m \<and> (nothrow_move T \<or> \<not> copy_constructible T)
        then map_option (map_option (moved_out T)) (slot_at (a, k) w1)
        else slot_at (a, k) w1)"
      by blast
    have h1: "heap w' ?nb = None" by (simp add: w' heap_Deallocate_at)
    have "live_value (Some ?nb, k) w2 = None" for k
      using bnb by (simp add: live_value_def s2 s1)
    then have "lost w' = lost w2" unfolding w' by (rule lost_Deallocate)
    then have h2: "lost w' = lost w" using step_ok_lost [OF st] c by simp
    have h3: "heap w' a = heap w a" if "?b \<noteq> Some a" for a
    proof (cases "a = ?nb")
      case True
      then show ?thesis using frn h1 by simp
    next
      case False
      then show ?thesis
        using step_ok_frame [OF st, of a] c that by (cases ?b) (auto simp: w' heap_Deallocate_at)
    qed
    have h4: "slot_at (?b, k) w' = slot_at (?b, k) w
          \<or> slot_at (?b, k) w' = map_option (map_option (moved_out T)) (slot_at (?b, k) w)" for k
      using bnb by (auto simp: w' slot_at_Deallocate s2 s1)
    from v' h1 h2 h3 h4 show ?thesis by blast
  qed
qed

lemma contents_moved:
  assumes "\<And>k. slot_at (m_buffer (m_data v), k) w' = slot_at (m_buffer (m_data v), k) w
          \<or> slot_at (m_buffer (m_data v), k) w'
              = map_option (map_option f) (slot_at (m_buffer (m_data v), k) w)"
  shows "list_all2 (\<lambda>y x. y = x \<or> y = map_option f x) (contents v w') (contents v w)"
proof -
  have "live_value (m_buffer (m_data v), k) w' = live_value (m_buffer (m_data v), k) w
      \<or> live_value (m_buffer (m_data v), k) w' = map_option f (live_value (m_buffer (m_data v), k) w)" for k
    using assms [of k] by (auto simp: live_value_def split: option.splits)
  then show ?thesis
    by (simp add: list_all2_conv_all_nth contents_def vec_begin_def GetAddress_def ptr_add_def)
qed

text \<open>
  Claim C3, as amended. \<^verbatim>\<open>Reserve(n)\<close> with \<open>n\<close> at most the capacity returns the
  vector and the world as they are (no construction, no destruction, the same capacity). With
  \<open>n\<close> above the capacity and \<^verbatim>\<open>n * sizeof(T)\<close> within \<^verbatim>\<open>size_t\<close>, on a vector that
  satisfies the invariant: when it returns, the vector owns a fresh block of exactly \<open>n\<close>
  slots, with the same size and the same element values, and no object was lost; it fails
  only when a failure is injected; and when it fails, for every element type, the vector
  object (its block, size and capacity) is as before the call, the new block was released
  and no object was lost (the objects already relocated were destroyed), and each element
  holds its old value or what a construction from an rvalue left of it. When it fails for a
  type that is nothrow move constructible or copy constructible, the whole heap, and so every
  element value, is as before the call.
\<close>

theorem Reserve_guarantees:
  "(n \<le> Capacity v \<longrightarrow> Reserve T n v w = (Inr (), v, w))
   \<and> (Capacity v < n \<and> fits T n \<and> valid v w \<and> fresh w \<longrightarrow>
       (case Reserve T n v w of
          (Inr u, v', w') \<Rightarrow>
            Capacity v' = n \<and> m_buffer (m_data v') = Some (next_block w) \<and> Size v' = Size v
            \<and> contents v' w' = contents v w \<and> valid v' w' \<and> lost w' = lost w
        | (Inl e, v', w') \<Rightarrow>
            fuse w \<noteq> None \<and> v' = v \<and> heap w' (next_block w) = None \<and> lost w' = lost w
            \<and> list_all2 (\<lambda>y x. y = x \<or> y = map_option (moved_out T) x)
                 (contents v' w') (contents v w)
            \<and> (nothrow_move T \<or> copy_constructible T \<longrightarrow>
                 heap w' = heap w \<and> contents v' w' = contents v w)))"
proof (intro conjI impI)
  assume "n \<le> Capacity v"
  then show "Reserve T n v w = (Inr (), v, w)"
    by (simp add: Capacity_def Reserve_noop)
next
  assume h: "Capacity v < n \<and> fits T n \<and> valid v w \<and> fresh w"
  then have cap: "m_capacity (m_data v) < n" and fit: "fits T n" and ok: "valid v w" and fr: "fresh w"
    by (simp_all add: Capacity_def)
  obtain r v' w' where res: "Reserve T n v w = (r, v', w')"
    by (cases "Reserve T n v w") auto
  show "case Reserve T n v w of
          (Inr u, v', w') \<Rightarrow>
            Capacity v' = n \<and> m_buffer (m_data v') = Some (next_block w) \<and> Size v' = Size v
            \<and> contents v' w' = contents v w \<and> valid v' w' \<and> lost w' = lost w
        | (Inl e, v', w') \<Rightarrow>
            fuse w \<noteq> None \<and> v' = v \<and> heap w' (next_block w) = None \<and> lost w' = lost w
            \<and> list_all2 (\<lambda>y x. y = x \<or> y = map_option (moved_out T) x)
                 (contents v' w') (contents v w)
            \<and> (nothrow_move T \<or> copy_constructible T \<longrightarrow>
                 heap w' = heap w \<and> contents v' w' = contents v w)"
  proof (cases r)
    case (Inr u)
    with res Reserve_success [OF cap fit ok fr, of u v' w'] show ?thesis
      by (simp add: Capacity_def Size_def)
  next
    case (Inl e)
    with res have res': "Reserve T n v w = (Inl e, v', w')" by simp
    have 1: "fuse w \<noteq> None"
      using Reserve_succeeds [OF cap fit ok fr] res' by auto
    note g = Reserve_fails [OF cap fit ok fr res']
    from g have 2: "v' = v" "heap w' (next_block w) = None" "lost w' = lost w" by simp_all
    from g have 3: "list_all2 (\<lambda>y x. y = x \<or> y = map_option (moved_out T) x)
                 (contents v w') (contents v w)"
      by (intro contents_moved) blast
    have 4: "heap w' = heap w \<and> contents v w' = contents v w"
      if "nothrow_move T \<or> copy_constructible T"
    proof -
      from Reserve_strong [OF cap fit ok fr that res'] have "heap w' = heap w" by simp
      then show ?thesis using contents_heap [of v w' w] by simp
    qed
    from 1 2 3 4 show ?thesis using res' by simp
  qed
qed

theorem Reserve_guarantees_witness:
  "Reserve copy_only_type 1 (vec (Some 0) 2 2)
       (world_of ((\<lambda>a. None)(0 := Some [Some 1, Some 2])) 1 None)
     = (Inr (), vec (Some 0) 2 2, world_of ((\<lambda>a. None)(0 := Some [Some 1, Some 2])) 1 None)
   \<and> (case Reserve copy_only_type 4 (vec (Some 0) 2 2)
           (world_of ((\<lambda>a. None)(0 := Some [Some 1, Some 2])) 1 None) of
        (r, v', w') \<Rightarrow> r = Inr () \<and> Capacity v' = 4 \<and> Size v' = 2
          \<and> contents v' w' = [Some 1, Some 2] \<and> valid v' w')
   \<and> (case Reserve copy_only_type 4 (vec (Some 0) 2 2)
           (world_of ((\<lambda>a. None)(0 := Some [Some 1, Some 2])) 1 (Some 2)) of
        (r, v', w') \<Rightarrow> r = Inl ElemThrow \<and> v' = vec (Some 0) 2 2
          \<and> heap w' = (\<lambda>a. None)(0 := Some [Some 1, Some 2]) \<and> lost w' = 0)
   \<and> (case Reserve move_only_type 4 (vec (Some 0) 2 2)
           (world_of ((\<lambda>a. None)(0 := Some [Some 1, Some 2])) 1 (Some 2)) of
        (r, v', w') \<Rightarrow> r = Inl ElemThrow \<and> v' = vec (Some 0) 2 2
          \<and> heap w' 1 = None \<and> lost w' = 0)"
proof -
  let ?v = "vec (Some 0) 2 2"
  let ?h = "(\<lambda>a. None)(0 := Some [Some (1::nat), Some 2])"
  have fr: "fresh (world_of ?h 1 f)" for f
    by (simp add: fresh_def world_of_def)
  have ok: "valid ?v (world_of ?h 1 f)" for f
    by (simp add: valid_def vec_def world_of_def)
  have c: "Capacity ?v = 2" "Size ?v = 2" by (simp_all add: Capacity_def Size_def vec_def)
  have ft: "fits copy_only_type 4" "fits move_only_type 4"
    by (simp_all add: fits_def copy_only_type_def move_only_type_def size_t_range_def)
  have ct: "contents ?v (world_of ?h 1 f) = [Some 1, Some 2]" for f
    by (simp add: contents_def vec_def world_of_def vec_begin_def GetAddress_def ptr_add_def
        live_value_def slot_at_def upt_rec numeral_2_eq_2)
  have r1: "fst (Reserve copy_only_type 4 ?v (world_of ?h 1 None)) = Inr ()"
    by code_simp
  have r2: "fst (Reserve copy_only_type 4 ?v (world_of ?h 1 (Some 2))) = Inl ElemThrow"
    by code_simp
  have r3: "fst (Reserve move_only_type 4 ?v (world_of ?h 1 (Some 2))) = Inl ElemThrow"
    by code_simp
  have 1: "Reserve copy_only_type 1 ?v (world_of ?h 1 None) = (Inr (), ?v, world_of ?h 1 None)"
    using Reserve_guarantees [of 1 ?v copy_only_type "world_of ?h 1 None"] c by simp
  have 2: "case Reserve copy_only_type 4 ?v (world_of ?h 1 None) of
        (r, v', w') \<Rightarrow> r = Inr () \<and> Capacity v' = 4 \<and> Size v' = 2
          \<and> contents v' w' = [Some 1, Some 2] \<and> valid v' w'"
    using Reserve_guarantees [of 4 ?v copy_only_type "world_of ?h 1 None"] c fr ok r1 ct ft
    by (auto split: prod.splits sum.splits)
  have 3: "case Reserve copy_only_type 4 ?v (world_of ?h 1 (Some 2)) of
        (r, v', w') \<Rightarrow> r = Inl ElemThrow \<and> v' = vec (Some 0) 2 2
          \<and> heap w' = ?h \<and> lost w' = 0"
    using Reserve_guarantees [of 4 ?v copy_only_type "world_of ?h 1 (Some 2)"] c fr ok r2 ft
    by (auto simp: copy_only_type_def world_of_def split: prod.splits sum.splits)
  have 4: "case Reserve move_only_type 4 ?v (world_of ?h 1 (Some 2)) of
        (r, v', w') \<Rightarrow> r = Inl ElemThrow \<and> v' = vec (Some 0) 2 2
          \<and> heap w' 1 = None \<and> lost w' = 0"
    using Reserve_guarantees [of 4 ?v move_only_type "world_of ?h 1 (Some 2)"] c fr ok r3 ft
    by (auto simp: world_of_def split: prod.splits sum.splits)
  from 1 2 3 4 show ?thesis by blast
qed

text \<open>
  The counterexamples to claim C3 as stated. First, the element type can only be moved, and
  its move constructor may throw: \<^verbatim>\<open>Reserve(4)\<close> on \<open>[1, 2]\<close> moves the first element,
  the second move throws, and the first element is left moved-from, with value \<open>0\<close>. Second,
  with elements of 8 bytes, \<^verbatim>\<open>Reserve(2^61 + 1)\<close> on \<open>[7]\<close> asks \<^verbatim>\<open>operator new\<close>
  for \<open>(2^61 + 1) * 8\<close> bytes, which is 8 in \<^verbatim>\<open>size_t\<close>: it returns with the capacity
  \<open>2^61 + 1\<close> on a block of one slot.
\<close>

theorem Reserve_claim_fails:
  "valid (vec (Some 0) 2 2) (world_of ((\<lambda>a. None)(0 := Some [Some (1::nat), Some 2])) 1 (Some 2))
   \<and> fresh (world_of ((\<lambda>a. None)(0 := Some [Some (1::nat), Some 2])) 1 (Some 2))
   \<and> contents (vec (Some 0) 2 2) (world_of ((\<lambda>a. None)(0 := Some [Some 1, Some 2])) 1 (Some 2))
       = [Some (1::nat), Some 2]
   \<and> (case Reserve move_only_type 4 (vec (Some 0) 2 2)
           (world_of ((\<lambda>a. None)(0 := Some [Some 1, Some 2])) 1 (Some 2)) of
        (r, v', w') \<Rightarrow> r = Inl ElemThrow \<and> v' = vec (Some 0) 2 2
          \<and> contents v' w' = [Some 0, Some 2])
   \<and> valid (vec (Some 0) 1 1) (world_of ((\<lambda>a. None)(0 := Some [Some (7::nat)])) 1 None)
   \<and> fresh (world_of ((\<lambda>a. None)(0 := Some [Some (7::nat)])) 1 None)
   \<and> (case Reserve copy_only_type 2305843009213693953 (vec (Some 0) 1 1)
           (world_of ((\<lambda>a. None)(0 := Some [Some 7])) 1 None) of
        (r, v', w') \<Rightarrow> r = Inr () \<and> Capacity v' = 2305843009213693953
          \<and> m_buffer (m_data v') = Some 1 \<and> heap w' 1 = Some [Some 7] \<and> \<not> valid v' w')"
proof -
  have f: "fresh (world_of ((\<lambda>a. None)(0 := Some s)) 1 g)" for s :: "nat option list" and g
    by (simp add: fresh_def world_of_def)
  have "valid (vec (Some 0) 2 2) (world_of ((\<lambda>a. None)(0 := Some [Some (1::nat), Some 2])) 1 (Some 2))"
    by code_simp
  moreover have "contents (vec (Some 0) 2 2) (world_of ((\<lambda>a. None)(0 := Some [Some 1, Some 2])) 1 (Some 2))
       = [Some (1::nat), Some 2]"
    by code_simp
  moreover have "(case Reserve move_only_type 4 (vec (Some 0) 2 2)
           (world_of ((\<lambda>a. None)(0 := Some [Some 1, Some 2])) 1 (Some 2)) of
        (r, v', w') \<Rightarrow> r = Inl ElemThrow \<and> v' = vec (Some 0) 2 2
          \<and> contents v' w' = [Some 0, Some 2])"
    by code_simp
  moreover have "valid (vec (Some 0) 1 1) (world_of ((\<lambda>a. None)(0 := Some [Some (7::nat)])) 1 None)"
    by code_simp
  moreover have "(case Reserve copy_only_type 2305843009213693953 (vec (Some 0) 1 1)
           (world_of ((\<lambda>a. None)(0 := Some [Some 7])) 1 None) of
        (r, v', w') \<Rightarrow> r = Inr () \<and> Capacity v' = 2305843009213693953
          \<and> m_buffer (m_data v') = Some 1 \<and> heap w' 1 = Some [Some 7] \<and> \<not> valid v' w')"
    by code_simp
  ultimately show ?thesis using f by blast
qed

subsection \<open>Growth by appending\<close>

lemma growth_powers:
  "1 \<le> c \<Longrightarrow> s \<le> c \<Longrightarrow>
     growth s c m = (if s + m \<le> c then [] else powers_upto (2 * c) (s + m))"
proof (induction m arbitrary: s c)
  case 0
  then show ?case by simp
next
  case (Suc m)
  show ?case
  proof (cases "s < c")
    case True
    with Suc.prems Suc.IH [of c "Suc s"] show ?thesis by simp
  next
    case False
    with Suc.prems have sc: "s = c" by simp
    have m: "max 1 (2 * c) = 2 * c" using Suc.prems by simp
    have "growth s c (Suc m) = 2 * c # growth (Suc c) (2 * c) m"
      using sc m by simp
    also have "growth (Suc c) (2 * c) m =
        (if Suc c + m \<le> 2 * c then [] else powers_upto (2 * (2 * c)) (Suc c + m))"
      using Suc.prems by (intro Suc.IH) auto
    also have "2 * c # (if Suc c + m \<le> 2 * c then [] else powers_upto (2 * (2 * c)) (Suc c + m))
        = powers_upto (2 * c) (s + Suc m)"
      using Suc.prems sc by (subst (2) powers_upto.simps) auto
    finally show ?thesis using sc by simp
  qed
qed

lemma growth_from_empty: "growth 0 0 (Suc m) = powers_upto 1 (Suc m)"
  using growth_powers [of 1 1 m]
  by (subst powers_upto.simps) auto

lemma PushBack_ext:
  assumes "valid v w" "fresh w" "fuse w = None" "ext_value a = Some x"
    and fit: "fits T (max 1 (2 * m_size v))"
  shows "\<exists>v' w'. PushBack T a v w = (Inr (), v', w')
     \<and> valid v' w' \<and> fresh w' \<and> fuse w' = None
     \<and> m_size v' = Suc (m_size v)
     \<and> m_capacity (m_data v') =
         (if m_size v < m_capacity (m_data v) then m_capacity (m_data v)
          else max 1 (2 * m_capacity (m_data v)))
     \<and> contents v' w' = contents v w @ [Some x]"
proof (cases "m_size v < m_capacity (m_data v)")
  case True
  from EmplaceBack_spare [OF assms(1-4) True, of T] obtain w' where
    "EmplaceBack T a v w = (Inr (m_buffer (m_data v), m_size v), v\<lparr>m_size := Suc (m_size v)\<rparr>, w')"
    "valid (v\<lparr>m_size := Suc (m_size v)\<rparr>) w'" "fresh w'" "fuse w' = None"
    "contents (v\<lparr>m_size := Suc (m_size v)\<rparr>) w' = contents v w @ [Some x]"
    by blast
  with True show ?thesis by (simp add: PushBack_def)
next
  case False
  have "m_size v = m_capacity (m_data v)" using assms(1) False by (simp add: valid_def)
  with fit have "fits T (max 1 (2 * m_capacity (m_data v)))" by simp
  from EmplaceBack_full [OF assms(1-4) False this] obtain v' w' where
    "EmplaceBack T a v w = (Inr (Some (next_block w), m_size v), v', w')"
    "m_data v' = \<lparr>m_buffer = Some (next_block w), m_capacity = max 1 (2 * m_capacity (m_data v))\<rparr>"
    "m_size v' = Suc (m_size v)" "valid v' w'" "fresh w'" "fuse w' = None"
    "contents v' w' = contents v w @ [Some x]"
    by blast
  with False show ?thesis by (simp add: PushBack_def)
qed

lemma append_all_general:
  "valid v w \<Longrightarrow> fresh w \<Longrightarrow> fuse w = None \<Longrightarrow> fits T (max 1 (2 * (m_size v + length xs))) \<Longrightarrow>
   \<exists>v' w'. append_all T xs v w = (Inr (growth (Size v) (Capacity v) (length xs)), v', w')
     \<and> Size v' = Size v + length xs \<and> contents v' w' = contents v w @ map Some xs
     \<and> valid v' w' \<and> fresh w' \<and> fuse w' = None"
proof (induction xs arbitrary: v w)
  case Nil
  then show ?case by simp
next
  case (Cons x xs)
  have "fits T (max 1 (2 * m_size v))"
    by (rule fits_mono [OF Cons.prems(4)]) simp
  from PushBack_ext [OF Cons.prems(1-3) _ this, of "ConstRef (Ext x)" x] obtain v1 w1 where
    p: "PushBack T (ConstRef (Ext x)) v w = (Inr (), v1, w1)"
    and ok: "valid v1 w1" "fresh w1" "fuse w1 = None"
    and s: "m_size v1 = Suc (m_size v)"
    and c: "m_capacity (m_data v1) =
         (if m_size v < m_capacity (m_data v) then m_capacity (m_data v)
          else max 1 (2 * m_capacity (m_data v)))"
    and ct: "contents v1 w1 = contents v w @ [Some x]"
    by auto
  have "fits T (max 1 (2 * (m_size v1 + length xs)))"
    using Cons.prems(4) s by simp
  from Cons.IH [OF ok this] obtain v' w' where
    r: "append_all T xs v1 w1 = (Inr (growth (Size v1) (Capacity v1) (length xs)), v', w')"
    and r': "Size v' = Size v1 + length xs" "contents v' w' = contents v1 w1 @ map Some xs"
      "valid v' w'" "fresh w'" "fuse w' = None"
    by blast
  show ?case
    using p r r' s c ct by (simp add: Size_def Capacity_def)
qed

lemma valid_default: "valid Vector_default w"
  by (simp add: valid_def Vector_default_def RawMemory_default_def)

lemma contents_default: "contents Vector_default w = []"
  by (simp add: contents_def Vector_default_def)

text \<open>
  Claim C4, as amended. Without injected failure, and with the byte count of twice as many
  elements within \<^verbatim>\<open>size_t\<close>, appending the values \<open>xs\<close> one at a time to a
  default-constructed vector succeeds and yields size \<open>length xs\<close> and the elements
  \<open>xs\<close> in order; the capacities observed at the growth points are the powers of two
  \<open>1, 2, 4, ...\<close> up to the first value that is at least \<open>length xs\<close> when \<open>xs\<close> is not
  empty, and there is no growth point when it is empty. An append that finds the capacity
  full leaves the capacity \<open>max 1 (2 * capacity)\<close>.
\<close>

theorem append_from_empty:
  "(fresh w \<and> fuse w = None \<and> fits T (max 1 (2 * length xs)) \<longrightarrow>
      (\<exists>v' w'. append_all T xs Vector_default w
           = (Inr (if xs = [] then [] else powers_upto 1 (length xs)), v', w')
         \<and> Size v' = length xs \<and> contents v' w' = map Some xs))
   \<and> (valid v w2 \<and> fresh w2 \<and> fuse w2 = None \<and> \<not> Size v < Capacity v
        \<and> fits T (max 1 (2 * Capacity v)) \<longrightarrow>
      (\<exists>v' w'. PushBack T (ConstRef (Ext x)) v w2 = (Inr (), v', w')
         \<and> Size v' = Suc (Size v) \<and> Capacity v' = max 1 (2 * Capacity v)))"
proof (intro conjI impI)
  assume h: "fresh w \<and> fuse w = None \<and> fits T (max 1 (2 * length xs))"
  have g: "growth (Size Vector_default) (Capacity Vector_default) (length xs)
      = (if xs = [] then [] else powers_upto 1 (length xs))"
  proof (cases xs)
    case Nil
    then show ?thesis by simp
  next
    case (Cons y ys)
    then show ?thesis
      using growth_from_empty [of "length ys"]
      by (simp add: Size_def Capacity_def Vector_default_def RawMemory_default_def)
  qed
  from h have "fresh w" "fuse w = None"
    "fits T (max 1 (2 * (m_size Vector_default + length xs)))"
    by (simp_all add: Vector_default_def)
  from append_all_general [OF valid_default this] obtain v' w' where
    "append_all T xs Vector_default w
       = (Inr (growth (Size Vector_default) (Capacity Vector_default) (length xs)), v', w')"
    "Size v' = Size Vector_default + length xs"
    "contents v' w' = contents Vector_default w @ map Some xs"
    by blast
  then have "append_all T xs Vector_default w
           = (Inr (if xs = [] then [] else powers_upto 1 (length xs)), v', w')
         \<and> Size v' = length xs \<and> contents v' w' = map Some xs"
    unfolding g contents_default by (simp add: Size_def Vector_default_def)
  then show "\<exists>v' w'. append_all T xs Vector_default w
           = (Inr (if xs = [] then [] else powers_upto 1 (length xs)), v', w')
         \<and> Size v' = length xs \<and> contents v' w' = map Some xs"
    by blast
next
  assume h: "valid v w2 \<and> fresh w2 \<and> fuse w2 = None \<and> \<not> Size v < Capacity v
        \<and> fits T (max 1 (2 * Capacity v))"
  then have full: "\<not> m_size v < m_capacity (m_data v)" by (simp add: Size_def Capacity_def)
  with h have "m_size v = m_capacity (m_data v)" by (simp add: valid_def)
  with h have "fits T (max 1 (2 * m_size v))" by (simp add: Capacity_def)
  with full PushBack_ext [of v w2 "ConstRef (Ext x)" x T] h
  show "\<exists>v' w'. PushBack T (ConstRef (Ext x)) v w2 = (Inr (), v', w')
         \<and> Size v' = Suc (Size v) \<and> Capacity v' = max 1 (2 * Capacity v)"
    by (auto simp: Size_def Capacity_def)
qed

theorem append_from_empty_witness:
  "(\<exists>v' w'. append_all copy_only_type [0, 1, 2, 3, 4] Vector_default (world_of (\<lambda>a. None) 0 None)
        = (Inr [1, 2, 4, 8], v', w')
      \<and> Size v' = 5 \<and> contents v' w' = [Some 0, Some 1, Some 2, Some 3, Some 4])
   \<and> (\<exists>v' w'. PushBack copy_only_type (ConstRef (Ext 3)) (vec (Some 0) 2 2)
          (world_of ((\<lambda>a. None)(0 := Some [Some 1, Some 2])) 1 None) = (Inr (), v', w')
      \<and> Size v' = 3 \<and> Capacity v' = 4)"
proof -
  let ?w = "world_of (\<lambda>a. None) 0 None :: nat world"
  let ?w2 = "world_of ((\<lambda>a. None)(0 := Some [Some (1::nat), Some 2])) 1 None"
  let ?v = "vec (Some 0) 2 2"
  let ?xs = "[0, 1, 2, 3, 4::nat]"
  have fr: "fresh ?w \<and> fuse ?w = None \<and> fits copy_only_type (max 1 (2 * length ?xs))"
    by (simp add: fresh_def world_of_def fits_def copy_only_type_def size_t_range_def)
  have ok: "valid ?v ?w2 \<and> fresh ?w2 \<and> fuse ?w2 = None \<and> \<not> Size ?v < Capacity ?v
      \<and> fits copy_only_type (max 1 (2 * Capacity ?v))"
    by (simp add: valid_def vec_def world_of_def fresh_def Size_def Capacity_def
        fits_def copy_only_type_def size_t_range_def)
  have eq: "(if ?xs = [] then [] else powers_upto 1 5) = [1, 2, 4, 8]"
    by code_simp
  have l: "length ?xs = 5" "map Some ?xs = [Some 0, Some 1, Some 2, Some 3, Some 4]"
    by simp_all
  have c: "Suc (Size ?v) = 3" "max 1 (2 * Capacity ?v) = 4"
    by (simp_all add: Capacity_def Size_def vec_def)
  note t = append_from_empty [of ?w copy_only_type ?xs ?v ?w2 3]
  from t fr have "\<exists>v' w'. append_all copy_only_type ?xs Vector_default ?w
           = (Inr (if ?xs = [] then [] else powers_upto 1 (length ?xs)), v', w')
         \<and> Size v' = length ?xs \<and> contents v' w' = map Some ?xs"
    by blast
  then have 1: "\<exists>v' w'. append_all copy_only_type ?xs Vector_default ?w = (Inr [1, 2, 4, 8], v', w')
      \<and> Size v' = 5 \<and> contents v' w' = [Some 0, Some 1, Some 2, Some 3, Some 4]"
    unfolding l eq .
  from t ok have "\<exists>v' w'. PushBack copy_only_type (ConstRef (Ext 3)) ?v ?w2 = (Inr (), v', w')
         \<and> Size v' = Suc (Size ?v) \<and> Capacity v' = max 1 (2 * Capacity ?v)"
    by blast
  then have 2: "\<exists>v' w'. PushBack copy_only_type (ConstRef (Ext 3)) ?v ?w2 = (Inr (), v', w')
      \<and> Size v' = 3 \<and> Capacity v' = 4"
    unfolding c .
  from 1 2 show ?thesis by blast
qed

text \<open>
  The counterexample to claim C4 as stated, at \<open>n = 0\<close>: no append, no growth point and
  no capacity observed, while the powers of two up to the first value that is at least \<open>0\<close>
  are the list \<open>[1]\<close>.
\<close>

theorem append_nothing_no_growth:
  "append_all copy_only_type [] Vector_default (world_of (\<lambda>a. None) 0 None)
     = (Inr [], Vector_default, world_of (\<lambda>a. None) 0 None)
   \<and> powers_upto 1 0 = [1]"
  by (simp add: powers_upto.simps)

subsection \<open>Erase\<close>

lemma assign_move_succeeds:
  "fuse w = None \<Longrightarrow> live_value src w \<noteq> None \<Longrightarrow> live_value dst w \<noteq> None \<Longrightarrow>
     \<exists>w'. assign_move T dst src w = (Inr (), w') \<and> fuse w' = None"
  by (auto simp: assign_move_def tick_no_fuse)

lemma std_move_shift_slot:
  "std_move T (b, Suc s) n (b, s) w = (Inr u, w') \<Longrightarrow>
     slot_at (a, k) w' =
       (if a = b \<and> s \<le> k \<and> k < s + n then slot_at (b, Suc k) w
        else if a = b \<and> k = s + n \<and> 0 < n
        then map_option (map_option (moved_from T)) (slot_at (a, k) w)
        else slot_at (a, k) w)"
proof (induction n arbitrary: s w)
  case 0
  then show ?case by auto
next
  case (Suc n)
  from Suc.prems obtain u1 w1
    where c: "assign_move T (b, s) (b, Suc s) w = (Inr u1, w1)"
      and r: "std_move T (b, Suc (Suc s)) n (b, Suc s) w1 = (Inr u, w')"
    by (auto simp: ptr_add_def split: prod.splits sum.splits)
  have ne: "(b, s) \<noteq> (b, Suc s)" by simp
  show ?case
    by (auto simp: Suc.IH [OF r] assign_move_slot [OF c ne])
qed

lemma std_move_shift_succeeds:
  "fuse w = None \<Longrightarrow> (\<And>k. s \<le> k \<Longrightarrow> k \<le> s + n \<Longrightarrow> live_value (b, k) w \<noteq> None) \<Longrightarrow>
     \<exists>w'. std_move T (b, Suc s) n (b, s) w = (Inr (), w') \<and> fuse w' = None"
proof (induction n arbitrary: s w)
  case 0
  then show ?case by simp
next
  case (Suc n)
  have "live_value (b, Suc s) w \<noteq> None" "live_value (b, s) w \<noteq> None"
    using Suc.prems(2) [of "Suc s"] Suc.prems(2) [of s] by simp_all
  with assign_move_succeeds [OF Suc.prems(1), of "(b, Suc s)" "(b, s)" T] obtain w1
    where c: "assign_move T (b, s) (b, Suc s) w = (Inr (), w1)" and f: "fuse w1 = None"
    by blast
  have ne: "(b, s) \<noteq> (b, Suc s)" by simp
  have "\<exists>w'. std_move T (b, Suc (Suc s)) n (b, Suc s) w1 = (Inr (), w') \<and> fuse w' = None"
  proof (rule Suc.IH [OF f])
    fix k assume "Suc s \<le> k" "k \<le> Suc s + n"
    then show "live_value (b, k) w1 \<noteq> None"
      using Suc.prems(2) [of k]
      by (auto simp: live_value_def assign_move_slot [OF c ne] split: option.splits)
  qed
  with c show ?case by (simp add: ptr_add_def)
qed

lemma Erase_unfold:
  "p < m_size v \<Longrightarrow>
   Erase T (m_buffer (m_data v), p) v w =
     (case std_move T (m_buffer (m_data v), Suc p) (m_size v - Suc p) (m_buffer (m_data v), p) w of
        (Inl e, w1) \<Rightarrow> (Inl e, v, w1)
      | (Inr u, w1) \<Rightarrow> (Inr (m_buffer (m_data v), p), v\<lparr>m_size := m_size v - 1\<rparr>,
            destroy_at (m_buffer (m_data v), m_size v - 1) w1))"
  by (simp add: Erase_def PopBack_def vec_begin_def vec_end_def GetAddress_def ptr_add_def
      split: prod.splits sum.splits)

lemma Erase_success:
  assumes ok: "valid v w" and p: "p < m_size v"
    and res: "Erase T (m_buffer (m_data v), p) v w = (Inr q, v', w')"
  shows "q = (m_buffer (m_data v), p) \<and> v' = v\<lparr>m_size := m_size v - 1\<rparr>
    \<and> contents v' w' = take p (contents v w) @ drop (Suc p) (contents v w)
    \<and> (if Suc p < m_size v
        then live_value q w' = live_value (m_buffer (m_data v), Suc p) w \<and> live_value q w' \<noteq> None
        else q = vec_end v')"
proof -
  let ?b = "m_buffer (m_data v)" and ?s = "m_size v"
  from res obtain u1 w1 where
    mv: "std_move T (?b, Suc p) (?s - Suc p) (?b, p) w = (Inr u1, w1)" and
    q: "q = (?b, p)" and v': "v' = v\<lparr>m_size := ?s - 1\<rparr>" and
    w': "w' = destroy_at (?b, ?s - 1) w1"
    unfolding Erase_unfold [OF p]
    by (auto split: prod.splits sum.splits)
  note s1 = std_move_shift_slot [OF mv]
  have sl: "slot_at (?b, k) w' = (if k < p then slot_at (?b, k) w else slot_at (?b, Suc k) w)"
    if "k < ?s - 1" for k
    using that p by (auto simp: w' destroy_at_slot s1)
  have ct: "contents v' w' = take p (contents v w) @ drop (Suc p) (contents v w)"
  proof (rule nth_equalityI)
    show "length (contents v' w') = length (take p (contents v w) @ drop (Suc p) (contents v w))"
      using p by (auto simp: contents_def v')
  next
    fix k assume "k < length (contents v' w')"
    then have k: "k < ?s - 1" by (simp add: contents_def v')
    then show "contents v' w' ! k = (take p (contents v w) @ drop (Suc p) (contents v w)) ! k"
      using p
      by (auto simp: contents_def v' vec_begin_def GetAddress_def ptr_add_def live_value_def
          sl nth_append min_def)
  qed
  have r: "if Suc p < m_size v
        then live_value q w' = live_value (m_buffer (m_data v), Suc p) w \<and> live_value q w' \<noteq> None
        else q = vec_end v'"
  proof (cases "Suc p < ?s")
    case True
    have "slot_at (?b, p) w' = slot_at (?b, Suc p) w" using sl [of p] True by simp
    then have "live_value q w' = live_value (?b, Suc p) w" by (simp add: q live_value_def)
    with valid_live [OF ok True] True show ?thesis by simp
  next
    case False
    then show ?thesis using p by (auto simp: q v' vec_end_def GetAddress_def ptr_add_def)
  qed
  from q v' ct r show ?thesis by blast
qed

lemma Erase_succeeds:
  assumes ok: "valid v w" and p: "p < m_size v" and f: "fuse w = None"
  shows "\<exists>q v' w'. Erase T (m_buffer (m_data v), p) v w = (Inr q, v', w')"
proof -
  let ?b = "m_buffer (m_data v)" and ?s = "m_size v"
  have "\<exists>w1. std_move T (?b, Suc p) (?s - Suc p) (?b, p) w = (Inr (), w1) \<and> fuse w1 = None"
  proof (rule std_move_shift_succeeds [OF f])
    fix k assume "p \<le> k" "k \<le> p + (?s - Suc p)"
    with p have "k < ?s" by simp
    then show "live_value (?b, k) w \<noteq> None" by (rule valid_live [OF ok])
  qed
  then obtain w1 where "std_move T (?b, Suc p) (?s - Suc p) (?b, p) w = (Inr (), w1)" by blast
  then show ?thesis
    by (simp add: Erase_unfold [OF p])
qed

text \<open>
  Claim C10. On a vector that satisfies the invariant, \<^verbatim>\<open>Erase(begin() + p)\<close> with
  \<open>p\<close> below the size fails only when a failure is injected, and when it returns, it
  returns the position \<open>p\<close> of the vector, whose size is one less and whose elements are the
  old ones without the one at \<open>p\<close>: the returned position holds the element that followed
  the erased one before the call, or it is \<^verbatim>\<open>end()\<close> when the last element was erased.
\<close>

theorem Erase_returns_position:
  "valid v w \<and> p < Size v \<longrightarrow>
     (case Erase T (ptr_add (vec_begin v) p) v w of
        (Inl e, v', w') \<Rightarrow> fuse w \<noteq> None
      | (Inr q, v', w') \<Rightarrow>
          q = ptr_add (vec_begin v') p \<and> Size v' = Size v - 1
          \<and> contents v' w' = take p (contents v w) @ drop (Suc p) (contents v w)
          \<and> (if Suc p < Size v
              then live_value q w' = live_value (ptr_add (vec_begin v) (Suc p)) w
                 \<and> live_value q w' \<noteq> None
              else q = vec_end v'))"
proof
  assume h: "valid v w \<and> p < Size v"
  then have ok: "valid v w" and p: "p < m_size v" by (simp_all add: Size_def)
  have pos: "ptr_add (vec_begin v) k = (m_buffer (m_data v), k)" for k
    by (simp add: ptr_add_def vec_begin_def GetAddress_def)
  obtain r v' w' where res: "Erase T (m_buffer (m_data v), p) v w = (r, v', w')"
    by (cases "Erase T (m_buffer (m_data v), p) v w") auto
  show "case Erase T (ptr_add (vec_begin v) p) v w of
        (Inl e, v', w') \<Rightarrow> fuse w \<noteq> None
      | (Inr q, v', w') \<Rightarrow>
          q = ptr_add (vec_begin v') p \<and> Size v' = Size v - 1
          \<and> contents v' w' = take p (contents v w) @ drop (Suc p) (contents v w)
          \<and> (if Suc p < Size v
              then live_value q w' = live_value (ptr_add (vec_begin v) (Suc p)) w
                 \<and> live_value q w' \<noteq> None
              else q = vec_end v')"
  proof (cases r)
    case (Inl e)
    then show ?thesis
      using Erase_succeeds [OF ok p, of T] res by (auto simp: pos)
  next
    case (Inr q)
    with res have "Erase T (m_buffer (m_data v), p) v w = (Inr q, v', w')" by simp
    from Erase_success [OF ok p this] have
      "q = (m_buffer (m_data v), p)" "v' = v\<lparr>m_size := m_size v - 1\<rparr>"
      "contents v' w' = take p (contents v w) @ drop (Suc p) (contents v w)"
      "if Suc p < m_size v
        then live_value q w' = live_value (m_buffer (m_data v), Suc p) w \<and> live_value q w' \<noteq> None
        else q = vec_end v'"
      by blast+
    with res Inr show ?thesis
      by (auto simp: pos Size_def vec_begin_def GetAddress_def ptr_add_def) metis
  qed
qed

theorem Erase_returns_position_witness:
  "(case Erase string_type (Some 0, 1) (vec (Some 0) 4 3)
          (world_of ((\<lambda>a. None)(0 := Some [Some ''a'', Some ''b'', Some ''c'', None])) 1 None) of
      (r, v', w') \<Rightarrow> r = Inr (Some 0, 1) \<and> Size v' = 2
        \<and> contents v' w' = [Some ''a'', Some ''c''] \<and> live_value (Some 0, 1) w' = Some ''c'')
   \<and> (case Erase string_type (Some 0, 2) (vec (Some 0) 4 3)
          (world_of ((\<lambda>a. None)(0 := Some [Some ''a'', Some ''b'', Some ''c'', None])) 1 None) of
      (r, v', w') \<Rightarrow> r = Inr (Some 0, 2) \<and> Size v' = 2
        \<and> contents v' w' = [Some ''a'', Some ''b''] \<and> vec_end v' = (Some 0, 2))"
proof -
  define v where "v = vec (Some 0) 4 3"
  define w where "w = world_of ((\<lambda>a. None)(0 := Some [Some ''a'', Some ''b'', Some ''c'', None])) 1 None"
  have ok: "valid v w" unfolding v_def w_def by code_simp
  have s: "Size v = 3" by (simp add: Size_def vec_def v_def)
  have pos: "ptr_add (vec_begin v) k = (Some 0, k)" for k
    by (simp add: ptr_add_def vec_begin_def GetAddress_def vec_def v_def)
  have ct: "contents v w = [Some ''a'', Some ''b'', Some ''c'']" unfolding v_def w_def by code_simp
  have lv: "live_value (Some 0, Suc 1) w = Some ''c''" unfolding w_def by code_simp
  have r1: "fst (Erase string_type (Some 0, 1) v w) = Inr (Some 0, 1)"
    unfolding v_def w_def by code_simp
  have r2: "fst (Erase string_type (Some 0, 2) v w) = Inr (Some 0, 2)"
    unfolding v_def w_def by code_simp
  have 1: "case Erase string_type (Some 0, 1) v w of
      (r, v', w') \<Rightarrow> r = Inr (Some 0, 1) \<and> Size v' = 2
        \<and> contents v' w' = [Some ''a'', Some ''c''] \<and> live_value (Some 0, 1) w' = Some ''c''"
    using Erase_returns_position [of v w 1 string_type] ok s ct lv r1 pos
    by (simp add: case_prod_beta)
  have 2: "case Erase string_type (Some 0, 2) v w of
      (r, v', w') \<Rightarrow> r = Inr (Some 0, 2) \<and> Size v' = 2
        \<and> contents v' w' = [Some ''a'', Some ''b''] \<and> vec_end v' = (Some 0, 2)"
    using Erase_returns_position [of v w 2 string_type] ok s ct r2 pos
    by (simp add: case_prod_beta)
  from 1 2 show ?thesis unfolding v_def w_def by blast
qed

subsection \<open>Copy construction and independent storage\<close>









lemma destroy_n_next [simp]: "next_block (destroy_n p n w) = next_block w"
  using destroy_n_step [of p w n] by (simp add: step_ok_def)

lemma destroy_n_heap_other: "fst p \<noteq> Some b \<Longrightarrow> heap (destroy_n p n w) b = heap w b"
  using destroy_n_step [of p w n] by (cases "fst p") (auto simp: step_ok_def)


lemma Emplace_realloc_unfold:
  "\<not> m_size v < m_capacity (m_data v) \<Longrightarrow> fst pos = m_buffer (m_data v) \<Longrightarrow> snd pos \<le> m_size v \<Longrightarrow>
   Emplace T pos a v w =
     (case RawMemory_ctor T (if m_size v = 0 then 1 else (2 * m_size v) mod size_t_range) w of
        (Inl e, w1) \<Rightarrow> (Inl e, v, w1)
      | (Inr nd, w1) \<Rightarrow>
          (case MOVE_OR_COPY_IF_NOEXCEPT T (m_buffer (m_data v), 0) (m_buffer nd, 0) (snd pos) w1 of
             (Inl e, w2) \<Rightarrow> (Inl e, v, Deallocate (m_buffer nd) w2)
           | (Inr u, w2) \<Rightarrow>
               (case construct_at T (m_buffer nd, snd pos) a w2 of
                  (Inl e, w3) \<Rightarrow> (Inl e, v, Deallocate (m_buffer nd) w3)
                | (Inr u', w3) \<Rightarrow>
                    (case MOVE_OR_COPY_IF_NOEXCEPT T (m_buffer (m_data v), snd pos)
                            (m_buffer nd, Suc (snd pos)) (m_size v - snd pos) w3 of
                       (Inl e, w4) \<Rightarrow> (Inl e, v, Deallocate (m_buffer nd) w4)
                     | (Inr u'', w4) \<Rightarrow>
                         (Inr (m_buffer nd, snd pos),
                          v\<lparr>m_data := \<lparr>m_buffer = m_buffer nd, m_capacity = m_capacity nd\<rparr>,
                            m_size := Suc (m_size v)\<rparr>,
                          Deallocate (m_buffer (m_data v))
                            (destroy_n (m_buffer (m_data v), 0) (m_size v) w4))))))"
  by (simp add: Emplace_def Let_def vec_begin_def vec_end_def GetAddress_def ptr_add_def
      RawMemory_dtor_def RawMemory_Swap_def cong: prod.case_cong sum.case_cong)


lemma vframe_mono: "vframe A v w v' w' \<Longrightarrow> A \<subseteq> B \<Longrightarrow> vframe B v w v' w'"
  by (auto simp: vframe_def frame_def)










lemma vframe_fuse: "vframe A v (w\<lparr>fuse := f\<rparr>) v' w' \<Longrightarrow> vframe A v w v' w'"
  by (simp add: vframe_def frame_def)





lemma sole_owner_fuse [simp]: "sole_owner k objs (w\<lparr>fuse := f\<rparr>) = sole_owner k objs w"
  by (simp add: sole_owner_def)






lemma uninitialized_copy_n_0 [simp]: "uninitialized_copy_n T src 0 dst w = (Inr (), w)"
  by (simp add: uninitialized_copy_n_def)




text \<open>
  A list of mutations that has no result: elements of 8 bytes, and \<^verbatim>\<open>Reserve(2^61 + 1)\<close>
  on the vector \<open>[7]\<close> at address 3, which returns with a block of one slot, followed by
  \<^verbatim>\<open>PushBack(8)\<close>, which constructs the new element behind that block.
\<close>

lemma Reserve_wrapped_then_PushBack:
  "mutate_all copy_only_type
     [(None, 3, MReserve 2305843009213693953), (None, 3, MPushBack (ConstRef (Ext 8)))]
     ((\<lambda>a. Vector_default)(0 := vec (Some 0) 1 1, 3 := vec (Some 1) 1 1))
     (world_of ((\<lambda>a. None)(0 := Some [Some 7], 1 := Some [Some 7])) 2 None) = None"
  by code_simp




subsection \<open>Insertion of a value that is not an element of the vector\<close>

text \<open>
  When the argument of \<^verbatim>\<open>Insert\<close> refers to an object outside the vector, no
  failure is injected and the doubled capacity fits, the call returns the position \<open>p\<close>
  of the new element, the elements before \<open>p\<close> keep their places and the others move up
  by one; \<^verbatim>\<open>Erase\<close> at the returned position then restores the old sequence.
\<close>

lemma std_move_backward_shift_slot:
  "std_move_backward T (b, f) n (b, Suc (f + n)) w = (Inr u, w') \<Longrightarrow>
     slot_at (a, k) w' =
       (if a = b \<and> f < k \<and> k \<le> f + n then slot_at (b, k - 1) w
        else if a = b \<and> k = f \<and> 0 < n
        then map_option (map_option (moved_from T)) (slot_at (a, k) w)
        else slot_at (a, k) w)"
proof (induction n arbitrary: w)
  case 0
  then show ?case by auto
next
  case (Suc n)
  from Suc.prems obtain u1 w1
    where c: "assign_move T (b, Suc (f + n)) (b, f + n) w = (Inr u1, w1)"
      and r: "std_move_backward T (b, f) n (b, Suc (f + n)) w1 = (Inr u, w')"
    by (auto simp: ptr_add_def split: prod.splits sum.splits)
  have ne: "(b, Suc (f + n)) \<noteq> (b, f + n)" by simp
  show ?case
    by (auto simp: Suc.IH [OF r] assign_move_slot [OF c ne])
qed

lemma std_move_backward_shift_succeeds:
  "fuse w = None \<Longrightarrow> (\<And>k. f \<le> k \<Longrightarrow> k \<le> f + n \<Longrightarrow> live_value (b, k) w \<noteq> None) \<Longrightarrow>
     \<exists>w'. std_move_backward T (b, f) n (b, Suc (f + n)) w = (Inr (), w') \<and> fuse w' = None"
proof (induction n arbitrary: w)
  case 0
  then show ?case by simp
next
  case (Suc n)
  have "live_value (b, f + n) w \<noteq> None" "live_value (b, Suc (f + n)) w \<noteq> None"
    using Suc.prems(2) [of "f + n"] Suc.prems(2) [of "Suc (f + n)"] by simp_all
  with assign_move_succeeds [OF Suc.prems(1), of "(b, f + n)" "(b, Suc (f + n))" T] obtain w1
    where c: "assign_move T (b, Suc (f + n)) (b, f + n) w = (Inr (), w1)" and f1: "fuse w1 = None"
    by blast
  have ne: "(b, Suc (f + n)) \<noteq> (b, f + n)" by simp
  have "\<exists>w'. std_move_backward T (b, f) n (b, Suc (f + n)) w1 = (Inr (), w') \<and> fuse w' = None"
  proof (rule Suc.IH [OF f1])
    fix k assume "f \<le> k" "k \<le> f + n"
    then show "live_value (b, k) w1 \<noteq> None"
      using Suc.prems(2) [of k]
      by (auto simp: live_value_def assign_move_slot [OF c ne] split: option.splits)
  qed
  with c show ?case by (simp add: ptr_add_def)
qed

lemma make_temp_ext:
  "fuse w = None \<Longrightarrow> ext_value a = Some x \<Longrightarrow>
     \<exists>w'. make_temp T a w = (Inr x, w') \<and> fuse w' = None \<and> heap w' = heap w
       \<and> next_block w' = next_block w"
  by (induction T a w rule: make_temp.induct) (auto simp: tick_no_fuse)

lemma assign_move_temp_succeeds:
  "fuse w = None \<Longrightarrow> live_value dst w \<noteq> None \<Longrightarrow>
     \<exists>w'. assign_move_temp T dst x w = (Inr (), w') \<and> fuse w' = None"
  by (auto simp: assign_move_temp_def tick_no_fuse)

lemma assign_move_temp_slot:
  "assign_move_temp T dst x w = (Inr u, w') \<Longrightarrow>
     slot_at p w' = (if p = dst then Some (Some x) else slot_at p w)"
  by (auto simp: assign_move_temp_def tick_case slot_at_write live_value_None
      split: if_splits)


lemma contents_insert:
  assumes "m_size v' = Suc (m_size v)" "p \<le> m_size v"
    and "\<And>k. k \<le> m_size v \<Longrightarrow> slot_at (m_buffer (m_data v'), k) w' =
      (if k < p then slot_at (m_buffer (m_data v), k) w else if k = p then Some (Some x)
       else slot_at (m_buffer (m_data v), k - 1) w)"
  shows "contents v' w' = take p (contents v w) @ Some x # drop p (contents v w)"
proof (rule nth_equalityI)
  show "length (contents v' w') = length (take p (contents v w) @ Some x # drop p (contents v w))"
    using assms(1,2) by (simp add: contents_def)
next
  fix i assume "i < length (contents v' w')"
  then have i: "i \<le> m_size v" using assms(1) by (simp add: contents_def)
  then have "contents v' w' ! i = live_value (m_buffer (m_data v'), i) w'"
    using assms(1) by (simp add: contents_def vec_begin_def GetAddress_def ptr_add_def del: upt_Suc)
  also have "\<dots> = (take p (contents v w) @ Some x # drop p (contents v w)) ! i"
    using i assms(2)
    by (auto simp: live_value_def assms(3) nth_append contents_def vec_begin_def GetAddress_def
        ptr_add_def nth_Cons' min_def)
  finally show "contents v' w' ! i = (take p (contents v w) @ Some x # drop p (contents v w)) ! i" .
qed

lemma Emplace_spare_mid:
  assumes ok: "valid v w" and fr: "fresh w" and f: "fuse w = None"
    and a: "ext_value a = Some x" and sp: "m_size v < m_capacity (m_data v)"
    and p: "p < m_size v"
  shows "\<exists>w'. Emplace T (m_buffer (m_data v), p) a v w
        = (Inr (m_buffer (m_data v), p), v\<lparr>m_size := Suc (m_size v)\<rparr>, w')
     \<and> valid (v\<lparr>m_size := Suc (m_size v)\<rparr>) w' \<and> fresh w' \<and> fuse w' = None
     \<and> contents (v\<lparr>m_size := Suc (m_size v)\<rparr>) w' = take p (contents v w) @ Some x # drop p (contents v w)"
proof -
  let ?b = "m_buffer (m_data v)" and ?s = "m_size v"
  from p obtain s' where s': "?s = Suc s'" by (cases ?s) auto
  from make_temp_ext [OF f a, of T] obtain w1
    where mt: "make_temp T a w = (Inr x, w1)" and f1: "fuse w1 = None" and h1: "heap w1 = heap w"
    by blast
  have s1: "slot_at q w1 = slot_at q w" for q by (rule slot_at_heap [OF h1])
  have raw: "slot_at (?b, ?s) w = Some None"
    using valid_raw [OF ok _ sp] by simp
  have lv: "live_value (?b, k) w \<noteq> None" if "k < ?s" for k using valid_live [OF ok that] .
  have "slot_at (?b, ?s) w1 = Some None" "live_value (?b, s') w1 \<noteq> None"
    using raw lv [of s'] s' by (simp_all add: s1 live_value_def)
  with construct_move_succeeds [of w1 T "(?b, s')" "(?b, ?s)"] f1 obtain w2
    where cm: "construct_move T (?b, ?s) (?b, s') w1 = (Inr (), w2)" and f2: "fuse w2 = None"
    by auto
  have ne: "(?b, ?s) \<noteq> (?b, s')" using s' by simp
  note s2 = construct_move_slot [OF cm ne]
  obtain n where n: "s' = p + n" using p s' by (metis less_Suc_eq_le le_Suc_ex)
  have "\<exists>w3. std_move_backward T (?b, p) n (?b, Suc (p + n)) w2 = (Inr (), w3) \<and> fuse w3 = None"
  proof (rule std_move_backward_shift_succeeds [OF f2])
    fix k assume "p \<le> k" "k \<le> p + n"
    then show "live_value (?b, k) w2 \<noteq> None"
      using lv [of k] s' n by (auto simp: live_value_def s2 s1 split: option.splits)
  qed
  then obtain w3 where mb: "std_move_backward T (?b, p) n (?b, Suc (p + n)) w2 = (Inr (), w3)"
    and f3: "fuse w3 = None" by blast
  note s3 = std_move_backward_shift_slot [OF mb]
  have "live_value (?b, p) w3 \<noteq> None"
    using lv [of p] p s' n by (auto simp: live_value_def s3 s2 s1 split: option.splits)
  with assign_move_temp_succeeds [OF f3, of "(?b, p)" T x] obtain w4
    where am: "assign_move_temp T (?b, p) x w3 = (Inr (), w4)" and f4: "fuse w4 = None"
    by blast
  note s4 = assign_move_temp_slot [OF am]
  let ?v' = "v\<lparr>m_size := Suc ?s\<rparr>" and ?w' = "destroy_temp w4"
  have e: "Emplace T (?b, p) a v w = (Inr (?b, p), ?v', ?w')"
    using sp p mt cm mb am s' n
    by (simp add: Emplace_def Let_def vec_end_def vec_begin_def GetAddress_def ptr_add_def)
  have st: "step_ok (set_option ?b) w ?w'"
  proof -
    have 1: "step_ok (set_option ?b) w w1"
      using make_temp_step [OF mt] by (auto simp: ext_value_arg_block [OF a] intro: step_ok_mono)
    have 2: "step_ok (set_option ?b) w1 w2" using construct_move_step [OF cm] by (auto intro: step_ok_mono)
    have 3: "step_ok (set_option ?b) w2 w3" using std_move_backward_step [OF mb] by (auto intro: step_ok_mono)
    have 4: "step_ok (set_option ?b) w3 w4" using assign_move_temp_step [OF am] by (auto intro: step_ok_mono)
    have 5: "step_ok (set_option ?b) w4 ?w'" by (rule destroy_temp_step)
    show ?thesis using 1 2 3 4 5 by (blast intro: step_ok_trans)
  qed
  have new: "slot_at (?b, k) ?w' =
      (if k < p then slot_at (?b, k) w else if k = p then Some (Some x)
       else if k \<le> ?s then slot_at (?b, k - 1) w else slot_at (?b, k) w)" for k
    using p s' n lv [of s'] lv [of p]
    by (auto simp: destroy_temp_def s4 s3 s2 s1 live_value_def split: option.splits)
  obtain b where b: "?b = Some b"
    using raw by (cases ?b) (auto simp: slot_at_def)
  have shape: "map_option length (heap ?w' b) = Some (m_capacity (m_data v))"
    using ok step_ok_shape [OF st, of b] by (simp add: valid_iff b)
  have live': "live_value (?b, k) ?w' \<noteq> None" if "k < Suc ?s" for k
    using that lv [of k] lv [of "k - 1"] p
    by (auto simp: live_value_def new split: option.splits)
  have raw': "slot_at (?b, k) ?w' = Some None" if "Suc ?s \<le> k" "k < m_capacity (m_data v)" for k
    using that p valid_raw [OF ok, of k] by (simp add: new)
  have ok': "valid ?v' ?w'"
    unfolding valid_iff using sp shape live' raw' by (simp add: b)
  have cont: "contents ?v' ?w' = take p (contents v w) @ Some x # drop p (contents v w)"
    by (rule contents_insert) (use p in \<open>auto simp: new\<close>)
  from e ok' cont f4 step_ok_fresh [OF st fr] show ?thesis
    by (auto simp: destroy_temp_def)
qed


lemma Emplace_full_success:
  assumes ok: "valid v w" and fr: "fresh w"
    and a: "ext_value a = Some x" and full: "\<not> m_size v < m_capacity (m_data v)"
    and fit2: "fits T (max 1 (2 * m_capacity (m_data v)))"
    and p: "p \<le> m_size v"
    and res: "Emplace T (m_buffer (m_data v), p) a v w = (Inr q, v', w')"
  shows "q = (Some (next_block w), p)
     \<and> m_data v' = \<lparr>m_buffer = Some (next_block w), m_capacity = max 1 (2 * m_capacity (m_data v))\<rparr>
     \<and> m_size v' = Suc (m_size v)
     \<and> valid v' w' \<and> fresh w'
     \<and> contents v' w' = take p (contents v w) @ Some x # drop p (contents v w)"
proof -
  let ?b = "m_buffer (m_data v)" and ?nb = "next_block w" and ?s = "m_size v"
  let ?n = "if ?s = 0 then 1 else 2 * ?s"
  let ?w5 = "\<lambda>w3. destroy_n (?b, 0) ?s w3"
  have sz: "?s = m_capacity (m_data v)" using ok full by (simp add: valid_def)
  have n0: "?n \<noteq> 0" by simp
  have sn: "?s < ?n" by simp
  have nm: "?n = max 1 (2 * m_capacity (m_data v))" using sz by (auto simp: max_def)
  with fit2 have fit: "fits T ?n" by simp
  have wrap: "(if ?s = 0 then 1 else (2 * ?s) mod size_t_range) = ?n"
    using fits_double [of T ?s] fit by (auto split: if_splits)
  from res obtain nd w1 u2 w2 u3 w3 u4 w4 where
    ctor: "RawMemory_ctor T ?n w = (Inr nd, w1)" and
    mc0: "MOVE_OR_COPY_IF_NOEXCEPT T (?b, 0) (m_buffer nd, 0) p w1 = (Inr u2, w2)" and
    ca0: "construct_at T (m_buffer nd, p) a w2 = (Inr u3, w3)" and
    mc20: "MOVE_OR_COPY_IF_NOEXCEPT T (?b, p) (m_buffer nd, Suc p) (?s - p) w3 = (Inr u4, w4)" and
    q0: "q = (m_buffer nd, p)" and
    v0: "v' = v\<lparr>m_data := \<lparr>m_buffer = m_buffer nd, m_capacity = m_capacity nd\<rparr>, m_size := Suc ?s\<rparr>" and
    w': "w' = Deallocate ?b (?w5 w4)"
    unfolding Emplace_realloc_unfold [OF full, of "(?b, p)" T a w, simplified, OF p] wrap
    by (auto split: prod.splits sum.splits)
  note c = RawMemory_ctor_Inr [OF ctor n0 fit]
  from c have nd: "nd = \<lparr>m_buffer = Some ?nb, m_capacity = ?n\<rparr>" by simp
  note mc = mc0 [unfolded nd, simplified] and ca = ca0 [unfolded nd, simplified]
    and mc2 = mc20 [unfolded nd, simplified]
  have v': "v' = v\<lparr>m_data := \<lparr>m_buffer = Some ?nb, m_capacity = ?n\<rparr>, m_size := Suc ?s\<rparr>"
    using v0 by (simp add: nd)
  have bnb: "?b \<noteq> Some ?nb"
    using valid_buffer_below [OF ok fr] by auto
  have s1: "\<And>a k. slot_at (a, k) w1 = (if a = Some ?nb then (if k < ?n then Some None else None) else slot_at (a, k) w)"
    using c by (intro slot_at_alloc) simp
  have s2: "slot_at (a, k) w2 = (if a = Some ?nb \<and> k < p then slot_at (?b, k) w1 else slot_at (a, k) w1)"
    if "a \<noteq> ?b \<or> p \<le> k" for a k
    using MOVE_OR_COPY_slot [OF mc, of a k] that bnb by auto
  note s3 = construct_at_ext_slot [OF ca a]
  have s4: "slot_at (a, k) w4 = (if a = Some ?nb \<and> p < k \<and> k \<le> ?s then slot_at (?b, k - 1) w3 else slot_at (a, k) w3)"
    if "a \<noteq> ?b \<or> k < p \<or> ?s \<le> k" for a k
    using MOVE_OR_COPY_slot [OF mc2, of a k] that bnb p by (auto simp: less_Suc_eq_le)
  have st2: "step_ok (insert ?nb (set_option ?b)) w1 w2"
    using MOVE_OR_COPY_step [OF mc] by simp
  have st3: "step_ok (insert ?nb (set_option ?b)) w2 w3"
    using construct_at_step [OF ca] by (auto simp: ext_value_arg_block [OF a] intro: step_ok_mono)
  have st4: "step_ok (insert ?nb (set_option ?b)) w3 w4"
    using MOVE_OR_COPY_step [OF mc2] by simp
  have st5: "step_ok (insert ?nb (set_option ?b)) w4 (?w5 w4)"
    by (rule step_ok_mono [OF destroy_n_step]) auto
  note st15 = step_ok_trans [OF step_ok_trans [OF step_ok_trans [OF st2 st3] st4] st5]
  have new: "slot_at (Some ?nb, k) w' =
      (if k < p then slot_at (?b, k) w else if k = p then Some (Some x)
       else if k \<le> ?s then slot_at (?b, k - 1) w
       else if k < ?n then Some None else None)" for k
    using bnb sn p
    by (auto simp: w' slot_at_Deallocate destroy_n_slot s4 s3 s2 s1 simp del: One_nat_def)
  have cont: "contents v' w' = take p (contents v w) @ Some x # drop p (contents v w)"
    by (rule contents_insert) (use p in \<open>auto simp: v' new\<close>)
  have shape: "map_option length (heap w' ?nb) = Some ?n"
  proof -
    have "heap w' ?nb = heap (?w5 w4) ?nb"
      using bnb by (simp add: w' heap_Deallocate_at)
    then show ?thesis using step_ok_shape [OF st15, of ?nb] c by simp
  qed
  have live': "live_value (Some ?nb, k) w' \<noteq> None" if "k < Suc ?s" for k
    using that valid_live [OF ok, of k] valid_live [OF ok, of "k - 1"] p
    by (auto simp: live_value_def new split: option.splits)
  have raw': "slot_at (Some ?nb, k) w' = Some None" if "Suc ?s \<le> k" "k < ?n" for k
    using that p by (simp add: new)
  have ok': "valid v' w'"
    unfolding valid_iff using sn shape live' raw'
    by (simp add: v' del: One_nat_def)
  have fr': "fresh w'"
    unfolding fresh_def
  proof (intro allI impI)
    fix a assume a: "next_block w' \<le> a"
    have nx: "next_block w' = Suc ?nb"
      using step_ok_next [OF st15] c by (simp add: w')
    with a have "heap w1 a = None" using c fr by (simp add: fresh_def)
    then have "heap (?w5 w4) a = None" using step_ok_heap_None [OF st15] by simp
    then show "heap w' a = None" by (simp add: w' heap_Deallocate_at)
  qed
  have cap: "m_data v' = \<lparr>m_buffer = Some ?nb, m_capacity = max 1 (2 * m_capacity (m_data v))\<rparr>"
    using sz by (auto simp: v' max_def)
  from q0 cap cont ok' fr' show ?thesis by (simp add: v' nd)
qed

lemma Emplace_full_succeeds:
  assumes ok: "valid v w" and fr: "fresh w" and f: "fuse w = None"
    and a: "ext_value a = Some x" and full: "\<not> m_size v < m_capacity (m_data v)"
    and fit2: "fits T (max 1 (2 * m_capacity (m_data v)))"
    and p: "p \<le> m_size v"
  shows "\<exists>q v' w'. Emplace T (m_buffer (m_data v), p) a v w = (Inr q, v', w') \<and> fuse w' = None"
proof -
  let ?b = "m_buffer (m_data v)" and ?nb = "next_block w" and ?s = "m_size v"
  let ?n = "if ?s = 0 then 1 else 2 * ?s"
  let ?w5 = "\<lambda>w3. destroy_n (?b, 0) ?s w3"
  have sz: "?s = m_capacity (m_data v)" using ok full by (simp add: valid_def)
  have n0: "?n \<noteq> 0" by simp
  have sn: "?s < ?n" by simp
  have nm: "?n = max 1 (2 * m_capacity (m_data v))" using sz by (auto simp: max_def)
  with fit2 have fit: "fits T ?n" by simp
  have wrap: "(if ?s = 0 then 1 else (2 * ?s) mod size_t_range) = ?n"
    using fits_double [of T ?s] fit by (auto split: if_splits)
  from RawMemory_ctor_succeeds [OF f] obtain nd w1
    where ctor: "RawMemory_ctor T ?n w = (Inr nd, w1)" and f1: "fuse w1 = None" by blast
  note c = RawMemory_ctor_Inr [OF ctor n0 fit]
  from c have nd: "nd = \<lparr>m_buffer = Some ?nb, m_capacity = ?n\<rparr>" by simp
  have bnb: "?b \<noteq> Some ?nb"
    using valid_buffer_below [OF ok fr] by auto
  have s1: "\<And>a k. slot_at (a, k) w1 = (if a = Some ?nb then (if k < ?n then Some None else None) else slot_at (a, k) w)"
    using c by (intro slot_at_alloc) simp
  have "\<exists>w2. MOVE_OR_COPY_IF_NOEXCEPT T (?b, 0) (Some ?nb, 0) p w1 = (Inr (), w2) \<and> fuse w2 = fuse w1"
  proof (rule MOVE_OR_COPY_succeeds)
    show "fuse w1 = None \<or> nothrow_move T" using f1 by simp
    show "fst (?b, 0::nat) \<noteq> fst (Some ?nb, 0::nat)" using bnb by simp
    fix j assume "j < p"
    then show "live_value (ptr_add (?b, 0) j) w1 \<noteq> None \<and> slot_at (ptr_add (Some ?nb, 0) j) w1 \<noteq> None"
      using valid_live [OF ok, of j] bnb p by (simp add: ptr_add_def live_value_def s1)
  qed
  then obtain w2 where mc: "MOVE_OR_COPY_IF_NOEXCEPT T (?b, 0) (Some ?nb, 0) p w1 = (Inr (), w2)"
    and f2: "fuse w2 = None" using f1 by auto
  have s2: "slot_at (a, k) w2 = (if a = Some ?nb \<and> k < p then slot_at (?b, k) w1 else slot_at (a, k) w1)"
    if "a \<noteq> ?b \<or> p \<le> k" for a k
    using MOVE_OR_COPY_slot [OF mc, of a k] that bnb by auto
  have "slot_at (Some ?nb, p) w2 \<noteq> None"
    using bnb sn p by (simp add: s2 s1 del: One_nat_def)
  with construct_at_ext_succeeds [OF f2 _ a, of "(Some ?nb, p)" T] obtain w3
    where ca: "construct_at T (Some ?nb, p) a w2 = (Inr (), w3)" and f3: "fuse w3 = None"
    by auto
  note s3 = construct_at_ext_slot [OF ca a]
  have "\<exists>w4. MOVE_OR_COPY_IF_NOEXCEPT T (?b, p) (Some ?nb, Suc p) (?s - p) w3 = (Inr (), w4) \<and> fuse w4 = fuse w3"
  proof (rule MOVE_OR_COPY_succeeds)
    show "fuse w3 = None \<or> nothrow_move T" using f3 by simp
    show "fst (?b, p) \<noteq> fst (Some ?nb, Suc p)" using bnb by simp
    fix j assume "j < ?s - p"
    then show "live_value (ptr_add (?b, p) j) w3 \<noteq> None \<and> slot_at (ptr_add (Some ?nb, Suc p) j) w3 \<noteq> None"
      using valid_live [OF ok, of "p + j"] bnb p sn
      by (simp add: ptr_add_def live_value_def s3 s2 s1 del: One_nat_def)
  qed
  then obtain w4 where mc2: "MOVE_OR_COPY_IF_NOEXCEPT T (?b, p) (Some ?nb, Suc p) (?s - p) w3 = (Inr (), w4)"
    and f4: "fuse w4 = None" using f3 by auto
  show ?thesis
    using ctor mc ca mc2 f4
    by (simp add: Emplace_realloc_unfold [OF full _ _] p nd wrap del: One_nat_def)
qed

lemma Emplace_full_at:
  assumes ok: "valid v w" and fr: "fresh w" and f: "fuse w = None"
    and a: "ext_value a = Some x" and full: "\<not> m_size v < m_capacity (m_data v)"
    and fit2: "fits T (max 1 (2 * m_capacity (m_data v)))"
    and p: "p \<le> m_size v"
  shows "\<exists>v' w'. Emplace T (m_buffer (m_data v), p) a v w = (Inr (m_buffer (m_data v'), p), v', w')
     \<and> m_size v' = Suc (m_size v)
     \<and> valid v' w' \<and> fresh w' \<and> fuse w' = None
     \<and> contents v' w' = take p (contents v w) @ Some x # drop p (contents v w)"
proof -
  from Emplace_full_succeeds [OF ok fr f a full fit2 p] obtain q v' w'
    where res: "Emplace T (m_buffer (m_data v), p) a v w = (Inr q, v', w')" and f': "fuse w' = None"
    by blast
  from Emplace_full_success [OF ok fr a full fit2 p res] res f' show ?thesis by auto
qed

lemma Insert_ext:
  assumes ok: "valid v w" and fr: "fresh w" and f: "fuse w = None"
    and a: "ext_value a = Some x" and p: "p \<le> Size v"
    and fit2: "Size v < Capacity v \<or> fits T (max 1 (2 * Size v))"
  shows "\<exists>v' w'. Insert T (ptr_add (vec_begin v) p) a v w = (Inr (ptr_add (vec_begin v') p), v', w')
     \<and> Size v' = Suc (Size v)
     \<and> valid v' w' \<and> fresh w' \<and> fuse w' = None
     \<and> contents v' w' = take p (contents v w) @ Some x # drop p (contents v w)"
proof -
  let ?b = "m_buffer (m_data v)"
  have pos: "ptr_add (vec_begin v) p = (?b, p)"
    by (simp add: ptr_add_def vec_begin_def GetAddress_def)
  have pos': "ptr_add (vec_begin v') p = (m_buffer (m_data v'), p)" for v' :: vector
    by (simp add: ptr_add_def vec_begin_def GetAddress_def)
  consider (atend) "m_size v < m_capacity (m_data v)" "p = m_size v"
    | (mid) "m_size v < m_capacity (m_data v)" "p < m_size v"
    | (full) "\<not> m_size v < m_capacity (m_data v)"
    using p unfolding Size_def by (meson le_neq_implies_less)
  then show ?thesis
  proof cases
    case atend
    from EmplaceBack_spare [OF ok fr f a atend(1), of T] atend(2) show ?thesis
      by (auto simp: Insert_def EmplaceBack_def vec_end_def vec_begin_def GetAddress_def ptr_add_def
          Size_def contents_def)
  next
    case mid
    from Emplace_spare_mid [OF ok fr f a mid, of T] show ?thesis
      unfolding pos pos' Insert_def Size_def by auto
  next
    case full
    then have "m_size v = m_capacity (m_data v)" using ok by (simp add: valid_def)
    with full fit2 have "fits T (max 1 (2 * m_capacity (m_data v)))"
      by (simp add: Size_def Capacity_def)
    from Emplace_full_at [OF ok fr f a full this, of p] p show ?thesis
      unfolding pos pos' Insert_def Size_def by auto
  qed
qed

lemma Insert_then_Erase:
  assumes ok: "valid v w" and fr: "fresh w" and f: "fuse w = None"
    and a: "ext_value a = Some x" and p: "p \<le> Size v"
    and fit2: "Size v < Capacity v \<or> fits T (max 1 (2 * Size v))"
  shows "\<exists>q v' w' v'' w''. Insert T (ptr_add (vec_begin v) p) a v w = (Inr q, v', w')
      \<and> contents v' w' ! p = Some x
      \<and> Erase T q v' w' = (Inr q, v'', w'')
      \<and> contents v'' w'' = contents v w"
proof -
  from Insert_ext [OF ok fr f a p fit2] obtain v' w'
    where i: "Insert T (ptr_add (vec_begin v) p) a v w = (Inr (ptr_add (vec_begin v') p), v', w')"
      and s: "Size v' = Suc (Size v)" and ok': "valid v' w'" and f': "fuse w' = None"
      and c: "contents v' w' = take p (contents v w) @ Some x # drop p (contents v w)"
    by blast
  have pos': "ptr_add (vec_begin v') p = (m_buffer (m_data v'), p)"
    by (simp add: ptr_add_def vec_begin_def GetAddress_def)
  have p': "p < m_size v'" using p s by (simp add: Size_def)
  from Erase_succeeds [OF ok' p' f', of T] obtain q v'' w''
    where e: "Erase T (m_buffer (m_data v'), p) v' w' = (Inr q, v'', w'')" by blast
  note r = Erase_success [OF ok' p' e]
  have len: "p \<le> length (contents v w)" using p by (simp add: contents_def Size_def)
  from r have "contents v'' w'' = take p (contents v' w') @ drop (Suc p) (contents v' w')"
    by blast
  then have "contents v'' w'' = contents v w"
    using len by (simp add: c)
  moreover have "contents v' w' ! p = Some x"
    using len by (simp add: c nth_append)
  ultimately show ?thesis using i e r by (auto simp: pos')
qed


subsection \<open>Relocation by move or by copy\<close>

lemma RawMemory_ctor_counters:
  "RawMemory_ctor T n w = (r, w') \<Longrightarrow> copy_ctors w' = copy_ctors w \<and> move_ctors w' = move_ctors w"
  by (auto simp: RawMemory_ctor_def Allocate_def tick_case split: if_splits)

lemma Emplace_realloc_counters:
  assumes full: "\<not> m_size v < m_capacity (m_data v)"
    and res: "Emplace T pos a v w = (Inr q, v', w')"
  shows "(if move_ctor T \<and> (nothrow_move T \<or> \<not> copy_constructible T)
        then move_ctors w' = move_ctors w + m_size v + arg_moves T a
           \<and> copy_ctors w' = copy_ctors w + arg_copies T a
        else copy_ctors w' = copy_ctors w + m_size v + arg_copies T a
           \<and> move_ctors w' = move_ctors w + arg_moves T a)"
proof -
  let ?b = "m_buffer (m_data v)" and ?i = "snd pos"
  from res full obtain nd w1 u2 w2 u3 w3 u4 w4 where
    idx: "?i \<le> m_size v" and
    ctor: "RawMemory_ctor T (if m_size v = 0 then 1 else (2 * m_size v) mod size_t_range) w = (Inr nd, w1)" and
    mc1: "MOVE_OR_COPY_IF_NOEXCEPT T (?b, 0) (m_buffer nd, 0) ?i w1 = (Inr u2, w2)" and
    ca: "construct_at T (m_buffer nd, ?i) a w2 = (Inr u3, w3)" and
    mc2: "MOVE_OR_COPY_IF_NOEXCEPT T (?b, ?i) (m_buffer nd, Suc ?i) (m_size v - ?i) w3 = (Inr u4, w4)" and
    w': "w' = Deallocate ?b (destroy_n (?b, 0) (m_size v) w4)"
    by (auto simp: Emplace_def Let_def RawMemory_Swap_def RawMemory_dtor_def GetAddress_def
        vec_begin_def vec_end_def ptr_add_def
        split: prod.splits sum.splits if_splits)
  show ?thesis
    using MOVE_OR_COPY_counters [OF mc1] MOVE_OR_COPY_counters [OF mc2]
      construct_at_counters [OF ca] RawMemory_ctor_counters [OF ctor] idx
    by (simp add: w' split: if_splits)
qed

text \<open>
  Claim C6. The element type can be constructed from an rvalue (it has a move constructor or
  a copy constructor), the vector satisfies the invariant, and the capacity asked for has a
  byte count within \<^verbatim>\<open>size_t\<close>. When \<^verbatim>\<open>Reserve\<close> (above the capacity) returns, the
  vector owns the new block, which holds the old element values in their order, and the
  instrumented element type has counted one move construction for each of the \<open>Size\<close>
  elements and no copy construction if the type has a move constructor that cannot throw or
  has no copy constructor, and one copy construction for each and no move construction in
  every other case. When \<^verbatim>\<open>Emplace\<close> with the capacity full (which is how
  \<^verbatim>\<open>PushBack\<close>, \<^verbatim>\<open>EmplaceBack\<close> and \<^verbatim>\<open>Insert\<close> grow) returns, the counts are the
  same, with one more construction for the new element by the kind of its argument, and for
  an argument outside the vector the new block holds the old elements around the new one.
\<close>

theorem relocation_moves_or_copies:
  "(move_ctor T \<or> copy_constructible T) \<and> valid v w \<and> fresh w \<longrightarrow>
     (Capacity v < n \<and> fits T n \<and> Reserve T n v w = (Inr u, v', w') \<longrightarrow>
        m_buffer (m_data v') = Some (next_block w) \<and> contents v' w' = contents v w
        \<and> (if (move_ctor T \<and> nothrow_move T) \<or> \<not> copy_constructible T
           then move_ctors w' = move_ctors w + Size v \<and> copy_ctors w' = copy_ctors w
           else copy_ctors w' = copy_ctors w + Size v \<and> move_ctors w' = move_ctors w))
     \<and> (\<not> Size v < Capacity v \<and> fits T (max 1 (2 * Size v)) \<and> p \<le> Size v
          \<and> Emplace T (ptr_add (vec_begin v) p) a v w = (Inr q, v'', w'') \<longrightarrow>
        (if (move_ctor T \<and> nothrow_move T) \<or> \<not> copy_constructible T
         then move_ctors w'' = move_ctors w + Size v + arg_moves T a
            \<and> copy_ctors w'' = copy_ctors w + arg_copies T a
         else copy_ctors w'' = copy_ctors w + Size v + arg_copies T a
            \<and> move_ctors w'' = move_ctors w + arg_moves T a)
        \<and> (ext_value a = Some x \<longrightarrow>
             m_buffer (m_data v'') = Some (next_block w)
             \<and> contents v'' w'' = take p (contents v w) @ Some x # drop p (contents v w)))"
proof (intro impI conjI; (elim conjE)?)
  assume T: "move_ctor T \<or> copy_constructible T" and ok: "valid v w" and fr: "fresh w"
  have cond: "((move_ctor T \<and> nothrow_move T) \<or> \<not> copy_constructible T)
      = (move_ctor T \<and> (nothrow_move T \<or> \<not> copy_constructible T))"
    using T by auto
  {
    assume cap: "Capacity v < n" and fit: "fits T n" and res: "Reserve T n v w = (Inr u, v', w')"
    note r = Reserve_success [OF cap [unfolded Capacity_def] fit ok fr res]
    from r show "m_buffer (m_data v') = Some (next_block w)" by simp
    from r show "contents v' w' = contents v w" by simp
    from r show "if (move_ctor T \<and> nothrow_move T) \<or> \<not> copy_constructible T
           then move_ctors w' = move_ctors w + Size v \<and> copy_ctors w' = copy_ctors w
           else copy_ctors w' = copy_ctors w + Size v \<and> move_ctors w' = move_ctors w"
      unfolding cond Size_def by simp
  }
  {
    assume full: "\<not> Size v < Capacity v" and fit: "fits T (max 1 (2 * Size v))" and p: "p \<le> Size v"
      and res: "Emplace T (ptr_add (vec_begin v) p) a v w = (Inr q, v'', w'')"
    from full have full': "\<not> m_size v < m_capacity (m_data v)" by (simp add: Size_def Capacity_def)
    from Emplace_realloc_counters [OF full' res]
    show "if (move_ctor T \<and> nothrow_move T) \<or> \<not> copy_constructible T
         then move_ctors w'' = move_ctors w + Size v + arg_moves T a
            \<and> copy_ctors w'' = copy_ctors w + arg_copies T a
         else copy_ctors w'' = copy_ctors w + Size v + arg_copies T a
            \<and> move_ctors w'' = move_ctors w + arg_moves T a"
      unfolding cond Size_def by simp
    have pos: "ptr_add (vec_begin v) p = (m_buffer (m_data v), p)"
      by (simp add: ptr_add_def vec_begin_def GetAddress_def)
    from full' ok have "m_size v = m_capacity (m_data v)" by (simp add: valid_def)
    with fit have fit': "fits T (max 1 (2 * m_capacity (m_data v)))" by (simp add: Size_def)
    {
      assume a: "ext_value a = Some x"
      note r = Emplace_full_success [OF ok fr a full' fit' p [unfolded Size_def] res [unfolded pos]]
      from r show "m_buffer (m_data v'') = Some (next_block w)" by simp
      from r show "contents v'' w'' = take p (contents v w) @ Some x # drop p (contents v w)" by simp
    }
  }
qed

theorem relocation_moves_or_copies_witness:
  "(case Reserve string_type 4 (vec (Some 0) 2 2)
           (world_of ((\<lambda>a. None)(0 := Some [Some ''a'', Some ''b''])) 1 None) of
      (r, v', w') \<Rightarrow> r = Inr () \<and> m_buffer (m_data v') = Some 1
        \<and> contents v' w' = [Some ''a'', Some ''b''] \<and> move_ctors w' = 2 \<and> copy_ctors w' = 0)
   \<and> (case Reserve copy_only_type 4 (vec (Some 0) 2 2)
           (world_of ((\<lambda>a. None)(0 := Some [Some 1, Some 2])) 1 None) of
      (r, v', w') \<Rightarrow> r = Inr () \<and> m_buffer (m_data v') = Some 1
        \<and> contents v' w' = [Some 1, Some 2] \<and> copy_ctors w' = 2 \<and> move_ctors w' = 0)
   \<and> (case Emplace string_type (Some 0, 1) (ConstRef (Ext ''c'')) (vec (Some 0) 2 2)
           (world_of ((\<lambda>a. None)(0 := Some [Some ''a'', Some ''b''])) 1 None) of
      (r, v', w') \<Rightarrow> r = Inr (Some 1, 1) \<and> m_buffer (m_data v') = Some 1
        \<and> contents v' w' = [Some ''a'', Some ''c'', Some ''b'']
        \<and> move_ctors w' = 2 \<and> copy_ctors w' = 1)
   \<and> (case Emplace copy_only_type (Some 0, 2) (RvalueRef (Ext 3)) (vec (Some 0) 2 2)
           (world_of ((\<lambda>a. None)(0 := Some [Some 1, Some 2])) 1 None) of
      (r, v', w') \<Rightarrow> r = Inr (Some 1, 2) \<and> m_buffer (m_data v') = Some 1
        \<and> contents v' w' = [Some 1, Some 2, Some 3]
        \<and> copy_ctors w' = 3 \<and> move_ctors w' = 0)
   \<and> (case Reserve nothrow_copy_type 4 (vec (Some 0) 2 2)
           (world_of ((\<lambda>a. None)(0 := Some [Some 1, Some 2])) 1 None) of
      (r, v', w') \<Rightarrow> r = Inr () \<and> m_buffer (m_data v') = Some 1
        \<and> contents v' w' = [Some 1, Some 2] \<and> copy_ctors w' = 2 \<and> move_ctors w' = 0)"
proof -
  define v where "v = vec (Some 0) 2 2"
  define ws where "ws = world_of ((\<lambda>a. None)(0 := Some [Some ''a'', Some ''b''])) 1 None"
  define wn where "wn = world_of ((\<lambda>a. None)(0 := Some [Some (1::nat), Some 2])) 1 None"
  define R1 where "R1 = Reserve string_type 4 v ws"
  define R2 where "R2 = Reserve copy_only_type 4 v wn"
  define R3 where "R3 = Emplace string_type (Some 0, 1) (ConstRef (Ext ''c'')) v ws"
  define R4 where "R4 = Emplace copy_only_type (Some 0, 2) (RvalueRef (Ext 3)) v wn"
  define R5 where "R5 = Reserve nothrow_copy_type 4 v wn"
  have c: "Capacity v = 2" "Size v = 2" "vec_begin v = (Some 0, 0)"
    by (simp_all add: Capacity_def Size_def vec_begin_def GetAddress_def vec_def v_def)
  have z: "move_ctors ws = 0" "copy_ctors ws = 0" "move_ctors wn = 0" "copy_ctors wn = 0"
    "next_block ws = 1" "next_block wn = 1"
    by (simp_all add: world_of_def ws_def wn_def)
  have t: "move_ctor string_type" "nothrow_move string_type" "\<not> move_ctor copy_only_type"
    "\<not> nothrow_move copy_only_type" "copy_constructible copy_only_type"
    "\<not> move_ctor nothrow_copy_type" "copy_constructible nothrow_copy_type"
    by (simp_all add: string_type_def copy_only_type_def nothrow_copy_type_def)
  have ok: "valid v ws" "fresh ws" "valid v wn" "fresh wn"
    by (simp_all add: valid_def fresh_def v_def ws_def wn_def vec_def world_of_def)
  have ft: "fits string_type 4" "fits copy_only_type 4" "fits nothrow_copy_type 4"
    by (simp_all add: fits_def string_type_def copy_only_type_def nothrow_copy_type_def
        size_t_range_def)
  have cs: "contents v ws = [Some ''a'', Some ''b'']" unfolding v_def ws_def by code_simp
  have cn: "contents v wn = [Some 1, Some 2]" unfolding v_def wn_def by code_simp
  have r1: "fst R1 = Inr ()" unfolding R1_def v_def ws_def by code_simp
  have r2: "fst R2 = Inr ()" unfolding R2_def v_def wn_def by code_simp
  have r3: "fst R3 = Inr (Some 1, 1)" unfolding R3_def v_def ws_def by code_simp
  have r4: "fst R4 = Inr (Some 1, 2)" unfolding R4_def v_def wn_def by code_simp
  have r5: "fst R5 = Inr ()" unfolding R5_def v_def wn_def by code_simp
  have e1: "Reserve string_type 4 v ws = (Inr (), fst (snd R1), snd (snd R1))"
    unfolding R1_def [symmetric] by (subst r1 [symmetric]) simp
  have e2: "Reserve copy_only_type 4 v wn = (Inr (), fst (snd R2), snd (snd R2))"
    unfolding R2_def [symmetric] by (subst r2 [symmetric]) simp
  have e5: "Reserve nothrow_copy_type 4 v wn = (Inr (), fst (snd R5), snd (snd R5))"
    unfolding R5_def [symmetric] by (subst r5 [symmetric]) simp
  have e3: "Emplace string_type (ptr_add (vec_begin v) 1) (ConstRef (Ext ''c'')) v ws
      = (Inr (Some 1, 1), fst (snd R3), snd (snd R3))"
    unfolding c ptr_add_def fst_conv snd_conv add_0 R3_def [symmetric] by (subst r3 [symmetric]) simp
  have e4: "Emplace copy_only_type (ptr_add (vec_begin v) 2) (RvalueRef (Ext 3)) v wn
      = (Inr (Some 1, 2), fst (snd R4), snd (snd R4))"
    unfolding c ptr_add_def fst_conv snd_conv add_0 R4_def [symmetric] by (subst r4 [symmetric]) simp
  have 1: "m_buffer (m_data (fst (snd R1))) = Some 1
      \<and> contents (fst (snd R1)) (snd (snd R1)) = [Some ''a'', Some ''b'']
      \<and> move_ctors (snd (snd R1)) = 2 \<and> copy_ctors (snd (snd R1)) = 0"
    using relocation_moves_or_copies [where T = string_type and v = v and w = ws and n = 4
        and u = "()" and v' = "fst (snd R1)" and w' = "snd (snd R1)"] e1 c z t ok ft cs
    by simp
  have 2: "m_buffer (m_data (fst (snd R2))) = Some 1
      \<and> contents (fst (snd R2)) (snd (snd R2)) = [Some 1, Some 2]
      \<and> copy_ctors (snd (snd R2)) = 2 \<and> move_ctors (snd (snd R2)) = 0"
    using relocation_moves_or_copies [where T = copy_only_type and v = v and w = wn and n = 4
        and u = "()" and v' = "fst (snd R2)" and w' = "snd (snd R2)"] e2 c z t ok ft cn
    by simp
  have 3: "m_buffer (m_data (fst (snd R3))) = Some 1
      \<and> contents (fst (snd R3)) (snd (snd R3)) = [Some ''a'', Some ''c'', Some ''b'']
      \<and> move_ctors (snd (snd R3)) = 2 \<and> copy_ctors (snd (snd R3)) = 1"
    using relocation_moves_or_copies [where T = string_type and v = v and w = ws and p = 1
        and a = "ConstRef (Ext ''c'')" and x = "''c''" and q = "(Some 1, 1)"
        and v'' = "fst (snd R3)" and w'' = "snd (snd R3)"] e3 c z t ok ft cs
    by simp
  have 4: "m_buffer (m_data (fst (snd R4))) = Some 1
      \<and> contents (fst (snd R4)) (snd (snd R4)) = [Some 1, Some 2, Some 3]
      \<and> copy_ctors (snd (snd R4)) = 3 \<and> move_ctors (snd (snd R4)) = 0"
    using relocation_moves_or_copies [where T = copy_only_type and v = v and w = wn and p = 2
        and a = "RvalueRef (Ext 3)" and x = 3 and q = "(Some 1, 2)"
        and v'' = "fst (snd R4)" and w'' = "snd (snd R4)"] e4 c z t ok ft cn
    by simp
  have 5: "m_buffer (m_data (fst (snd R5))) = Some 1
      \<and> contents (fst (snd R5)) (snd (snd R5)) = [Some 1, Some 2]
      \<and> copy_ctors (snd (snd R5)) = 2 \<and> move_ctors (snd (snd R5)) = 0"
    using relocation_moves_or_copies [where T = nothrow_copy_type and v = v and w = wn and n = 4
        and u = "()" and v' = "fst (snd R5)" and w' = "snd (snd R5)"] e5 c z t ok ft cn
    by simp
  from 1 2 3 4 5 r1 r2 r3 r4 r5 show ?thesis
    unfolding R1_def R2_def R3_def R4_def R5_def v_def ws_def wn_def by (simp add: case_prod_beta)
qed

end
